theory Spec2Isabelle
  imports Main "HOL-Library.Word"
begin

section \<open>The board and action interfaces consumed by agent.h\<close>

text \<open>
  agent.h includes board.h and action.h, which are not part of the sources at hand.
  A board is a 4x4 grid of cells read through \<^verbatim>\<open>operator()(i)\<close> for \<open>i\<close> in 0..15
  (row \<open>i div 4\<close>, column \<open>i mod 4\<close>); agent.h compares a cell with \<^verbatim>\<open>(uint32_t)max_tile\<close>,
  so a cell is an unsigned 32-bit value. A board is represented by its read access.
  The \<^verbatim>\<open>int\<close> values of agent.h (rewards and scores) are mathematical integers here:
  signed overflow is undefined in C++ and the sums of agent.h stay far below \<open>2^31\<close>
  for the rewards and tile weights of the game.
\<close>

type_synonym cell = "32 word"
type_synonym board = "nat \<Rightarrow> cell"

text \<open>The three shapes of an action (class \<^verbatim>\<open>action\<close> of action.h): \<^verbatim>\<open>action::slide(op)\<close>,
  \<^verbatim>\<open>action::place(pos, tile)\<close> and the default-constructed \<^verbatim>\<open>action()\<close>.\<close>

datatype act = Slide nat | Place nat cell | NoAction

text \<open>
  \<^verbatim>\<open>board::slide(op)\<close> and \<^verbatim>\<open>board::map_to_fibonacci(cell)\<close> are declared in board.h.
  They are parameters of the model: \<open>slide B op b\<close> is the board after the slide together
  with the returned reward (\<open>-1\<close> when the slide is not legal), and \<open>map_to_fibonacci B c\<close>
  is the weight of the cell value \<open>c\<close>.
\<close>

record board_iface =
  slide :: "nat \<Rightarrow> board \<Rightarrow> board \<times> int"
  map_to_fibonacci :: "cell \<Rightarrow> int"

text \<open>
  Modelled from the spec: \<^verbatim>\<open>board::rotate_left\<close> is defined in board.h, which is missing.
  The spec describes it as the in-place 90 degree rotation of the 4x4 grid; rotating
  to the left (counterclockwise) moves the cell at row \<open>c\<close>, column \<open>3 - r\<close> to row \<open>r\<close>,
  column \<open>c\<close>.
\<close>

definition rotate_left :: "board \<Rightarrow> board" where
  "rotate_left b = (\<lambda>i. if i < 16 then b (4 * (i mod 4) + (3 - i div 4)) else b i)"

section \<open>Board objects in memory\<close>

text \<open>
  agent.h passes boards by reference, copies them into locals and temporaries, and
  mutates the copies (\<^verbatim>\<open>slide\<close>, \<^verbatim>\<open>rotate_left\<close>). Board objects therefore live
  in a store: \<open>boards s a\<close> is the board at address \<open>a\<close> and \<open>stack_top s\<close> is the first
  free address of the stack of automatic objects.
\<close>

type_synonym addr = nat

record store =
  boards :: "addr \<Rightarrow> board"
  stack_top :: addr

text \<open>\<^verbatim>\<open>board after = game;\<close> and the temporary \<^verbatim>\<open>board(before)\<close>: a new object at the
  top of the stack, initialised with a copy of the board at \<open>src\<close>.\<close>

definition board_copy :: "addr \<Rightarrow> store \<Rightarrow> addr \<times> store" where
  "board_copy src s =
     (stack_top s,
      s\<lparr>boards := (boards s)(stack_top s := boards s src), stack_top := Suc (stack_top s)\<rparr>)"

text \<open>The end of the lifetime of the object at the top of the stack.\<close>

definition board_destroy :: "store \<Rightarrow> store" where
  "board_destroy s = s\<lparr>stack_top := stack_top s - 1\<rparr>"

text \<open>\<^verbatim>\<open>obj.slide(op)\<close> on the object at address \<open>a\<close>: the object is mutated, the reward returned.\<close>

definition slide_at :: "board_iface \<Rightarrow> nat \<Rightarrow> addr \<Rightarrow> store \<Rightarrow> int \<times> store" where
  "slide_at B op a s =
     (let (b', reward) = slide B op (boards s a)
      in (reward, s\<lparr>boards := (boards s)(a := b')\<rparr>))"

text \<open>\<^verbatim>\<open>obj.rotate_left()\<close> on the object at address \<open>a\<close>.\<close>

definition rotate_left_at :: "addr \<Rightarrow> store \<Rightarrow> store" where
  "rotate_left_at a s = s\<lparr>boards := (boards s)(a := rotate_left (boards s a))\<rparr>"

section \<open>The standard library consumed by agent.h\<close>

text \<open>
  The random engine (\<^verbatim>\<open>std::default_random_engine\<close>), \<^verbatim>\<open>std::shuffle\<close>,
  \<^verbatim>\<open>std::uniform_int_distribution\<close> and \<^verbatim>\<open>std::stod\<close> belong to the C++ library, whose
  algorithms are implementation-defined. They are parameters of the model, over a type
  \<open>'e\<close> of engine states:
  \<^item> \<open>shuffle S xs e\<close>: the array after \<^verbatim>\<open>std::shuffle(xs.begin(), xs.end(), engine)\<close>
    and the engine after it;
  \<^item> \<open>uniform_int S lo hi e\<close>: one draw of \<^verbatim>\<open>std::uniform_int_distribution<int>(lo, hi)\<close>
    and the engine after it;
  \<^item> \<open>seed S v\<close>: the engine after \<^verbatim>\<open>engine.seed(v)\<close>; \<open>default_engine S\<close>: the
    default-constructed engine;
  \<^item> \<open>stod_int S str\<close>: \<^verbatim>\<open>int(std::stod(str))\<close>, or the exception that \<^verbatim>\<open>std::stod\<close> throws.
\<close>

datatype error = MapAtOutOfRange | StodInvalidArgument | StodOutOfRange

record 'e std_iface =
  shuffle :: "nat list \<Rightarrow> 'e \<Rightarrow> nat list \<times> 'e"
  uniform_int :: "int \<Rightarrow> int \<Rightarrow> 'e \<Rightarrow> int \<times> 'e"
  seed :: "int \<Rightarrow> 'e"
  default_engine :: "'e"
  stod_int :: "string \<Rightarrow> error + int"

section \<open>agent: the key=value properties\<close>

text \<open>The whitespace of \<^verbatim>\<open>operator>>\<close> in the C locale: space, \<^verbatim>\<open>\t \n \v \f \r\<close>.\<close>

definition isspace :: "char \<Rightarrow> bool" where
  "isspace c \<longleftrightarrow> c \<in> {CHR '' '', CHR 0x09, CHR 0x0A, CHR 0x0B, CHR 0x0C, CHR 0x0D}"

text \<open>\<^verbatim>\<open>for (std::string pair; ss >> pair; )\<close>: the maximal runs of non-whitespace
  characters of the stream, in order; \<open>w\<close> is the word read so far.\<close>

fun extract_words :: "string \<Rightarrow> string \<Rightarrow> string list" where
  "extract_words [] w = (if w = [] then [] else [w])"
| "extract_words (c # cs) w =
     (if isspace c then (if w = [] then extract_words cs [] else w # extract_words cs [])
      else extract_words cs (w @ [c]))"

text \<open>\<^verbatim>\<open>pair.substr(0, pair.find('='))\<close>: without \<^verbatim>\<open>'='\<close>, \<^verbatim>\<open>find\<close> is \<^verbatim>\<open>npos\<close> and the
  key is the whole pair.\<close>

definition pair_key :: "string \<Rightarrow> string" where
  "pair_key pair = takeWhile (\<lambda>c. c \<noteq> CHR ''='') pair"

text \<open>\<^verbatim>\<open>pair.substr(pair.find('=') + 1)\<close>: without \<^verbatim>\<open>'='\<close>, \<^verbatim>\<open>npos + 1\<close> wraps to 0 and
  the value is the whole pair.\<close>

definition pair_value :: "string \<Rightarrow> string" where
  "pair_value pair =
     (if CHR ''='' \<in> set pair then tl (dropWhile (\<lambda>c. c \<noteq> CHR ''='') pair) else pair)"

record agent =
  meta :: "string \<rightharpoonup> string"

definition agent :: "string \<Rightarrow> agent" where
  "agent args =
     \<lparr>meta = fold (\<lambda>pair m. m(pair_key pair \<mapsto> pair_value pair))
               (extract_words (''name=unknown role=unknown '' @ args) []) Map.empty\<rparr>"

text \<open>\<^verbatim>\<open>agent::property(key)\<close>: \<^verbatim>\<open>meta.at(key)\<close> throws for a missing key.\<close>

definition property :: "'a agent_scheme \<Rightarrow> string \<Rightarrow> error + string" where
  "property a key = (case meta a key of None \<Rightarrow> Inl MapAtOutOfRange | Some v \<Rightarrow> Inr v)"

section \<open>random_agent, rndenv and player\<close>

record 'e random_agent = agent +
  engine :: "'e"

text \<open>\<^verbatim>\<open>random_agent::random_agent(args)\<close>: the engine is default-constructed, and seeded
  only when \<^verbatim>\<open>meta.find("seed") != meta.end()\<close>.\<close>

definition random_agent :: "'e std_iface \<Rightarrow> string \<Rightarrow> error + 'e random_agent" where
  "random_agent S args =
     (let a = agent args in
      case meta a ''seed'' of
        None \<Rightarrow> Inr \<lparr>meta = meta a, engine = default_engine S\<rparr>
      | Some v \<Rightarrow>
          (case stod_int S v of
             Inl e \<Rightarrow> Inl e
           | Inr n \<Rightarrow> Inr \<lparr>meta = meta a, engine = seed S n\<rparr>))"

record 'e rndenv = "'e random_agent" +
  space :: "nat list"
  popup :: "int \<times> int"

definition rndenv :: "'e std_iface \<Rightarrow> string \<Rightarrow> error + 'e rndenv" where
  "rndenv S args =
     (case random_agent S (''name=random role=environment '' @ args) of
        Inl e \<Rightarrow> Inl e
      | Inr r \<Rightarrow> Inr \<lparr>meta = meta r, engine = engine r,
                      space = [0, 1, 2, 3, 4, 5, 6, 7, 8, 9, 10, 11, 12, 13, 14, 15],
                      popup = (0, 9)\<rparr>)"

text \<open>\<^verbatim>\<open>rndenv::take_action(after)\<close>: shuffle \<open>space\<close>, take the first position whose cell
  is 0, draw the tile there. The board is only read.\<close>

definition rndenv_take_action ::
  "'e std_iface \<Rightarrow> 'e rndenv \<Rightarrow> board \<Rightarrow> act \<times> 'e rndenv" where
  "rndenv_take_action S env after =
     (let (space', e1) = shuffle S (space env) (engine env) in
      case find (\<lambda>pos. after pos = 0) space' of
        None \<Rightarrow> (NoAction, env\<lparr>engine := e1, space := space'\<rparr>)
      | Some pos \<Rightarrow>
          (let (draw, e2) = uniform_int S (fst (popup env)) (snd (popup env)) e1;
               tile = (if draw \<noteq> 0 then 1 else 2)
           in (Place pos tile, env\<lparr>engine := e2, space := space'\<rparr>)))"

record 'e player = "'e random_agent" +
  opcode :: "nat list"
  tuples :: "nat list list"
  play_type :: string

definition player :: "'e std_iface \<Rightarrow> string \<Rightarrow> error + 'e player" where
  "player S args =
     (case random_agent S (''name=dummy role=player '' @ args) of
        Inl e \<Rightarrow> Inl e
      | Inr r \<Rightarrow> Inr \<lparr>meta = meta r, engine = engine r,
                      opcode = [0, 1, 2, 3], tuples = [[0, 1, 2, 3]], play_type = args\<rparr>)"

section \<open>The evaluation engine of the player\<close>

text \<open>
  \<^verbatim>\<open>player::cal_decreasing_score(tuple, after)\<close>. The loop runs \<open>i\<close> from 1 to
  \<open>tuple.size() - 1\<close>; the loop state is \<open>(is_decreasing, is_increasing, score)\<close> and two
  equal neighbours return 0 at once. The function only reads the board.
\<close>

fun cal_decreasing_loop ::
  "board_iface \<Rightarrow> nat list \<Rightarrow> board \<Rightarrow> nat list \<Rightarrow> bool \<times> bool \<times> int \<Rightarrow> int" where
  "cal_decreasing_loop B tuple after [] (is_decreasing, is_increasing, score) =
     (if is_decreasing \<or> is_increasing then score else 0)"
| "cal_decreasing_loop B tuple after (i # rest) (is_decreasing, is_increasing, score) =
     (let score' = score + map_to_fibonacci B (after (tuple ! i)) in
      if after (tuple ! i) = after (tuple ! (i - 1)) then 0
      else if after (tuple ! i) > after (tuple ! (i - 1))
        then cal_decreasing_loop B tuple after rest (False, is_increasing, score')
        else cal_decreasing_loop B tuple after rest (is_decreasing, False, score'))"

definition cal_decreasing_score :: "board_iface \<Rightarrow> nat list \<Rightarrow> board \<Rightarrow> int" where
  "cal_decreasing_score B tuple after =
     cal_decreasing_loop B tuple after [1..<length tuple] (True, True, 0)"

text \<open>\<^verbatim>\<open>player::cal_space_score(after)\<close>: 5 for each of the 16 cells that is 0.\<close>

definition cal_space_score :: "board \<Rightarrow> int" where
  "cal_space_score after =
     (let space_counter = fold (\<lambda>i c. c + (if after i = 0 then 1 else 0)) [0..<16] (0::int);
          space_factor = 5
      in space_counter * space_factor)"

text \<open>
  \<^verbatim>\<open>player::evaluate_board(after)\<close>, with \<open>p\<close> the player it is a member of: for each
  tuple, four rounds of scoring the tuple and rotating the board object in place; then
  the space score of the board object as it is after the loops.
\<close>

definition evaluate_board ::
  "board_iface \<Rightarrow> 'e player \<Rightarrow> addr \<Rightarrow> store \<Rightarrow> int \<times> store" where
  "evaluate_board B p after s =
     (let (score, s1) =
            fold (\<lambda>tuple. fold (\<lambda>i (score, s).
                    (score + cal_decreasing_score B tuple (boards s after),
                     rotate_left_at after s)) [0..<4])
              (tuples p) (0, s)
      in (score + cal_space_score (boards s1 after), s1))"

section \<open>The search engine and the move selectors of the player\<close>

text \<open>
  \<^verbatim>\<open>player::tree_search(game, search_depth)\<close>. Each round of the loop over \<open>opcode\<close>
  copies the board at \<open>game\<close> into the local \<open>after\<close>, slides the copy, searches it when
  the slide is legal, and folds \<open>score + reward\<close> into \<open>best_score\<close>; the local dies at
  the end of the round.
\<close>

function tree_search ::
  "board_iface \<Rightarrow> 'e player \<Rightarrow> addr \<Rightarrow> int \<Rightarrow> store \<Rightarrow> int \<times> store" where
  "tree_search B p game search_depth s =
     (if search_depth \<le> 0 then evaluate_board B p game s
      else fold (\<lambda>op (best_score, s).
             let (after, s1) = board_copy game s;
                 (reward, s2) = slide_at B op after s1;
                 (score, s3) =
                   (if reward \<noteq> -1
                    then (let (v, s') = tree_search B p after (search_depth - 1) s2
                          in (reward + v, s'))
                    else (0, s2))
             in (max best_score (score + reward), board_destroy s3))
           (opcode p) (0, s))"
  by pat_completeness auto
termination
  by (relation "measure (\<lambda>(B, p, game, search_depth, s). nat search_depth)") auto

declare tree_search.simps [simp del]

text \<open>\<^verbatim>\<open>player::random_action(before)\<close>: the loop returns at the first legal slide of a
  temporary copy.\<close>

fun random_loop :: "board_iface \<Rightarrow> nat list \<Rightarrow> addr \<Rightarrow> store \<Rightarrow> act \<times> store" where
  "random_loop B [] before s = (NoAction, s)"
| "random_loop B (op # ops) before s =
     (let (tmp, s1) = board_copy before s;
          (reward, s2) = slide_at B op tmp s1;
          s3 = board_destroy s2
      in if reward \<noteq> -1 then (Slide op, s3) else random_loop B ops before s3)"

definition random_action ::
  "board_iface \<Rightarrow> 'e std_iface \<Rightarrow> 'e player \<Rightarrow> addr \<Rightarrow> store \<Rightarrow> act \<times> 'e player \<times> store" where
  "random_action B S p before s =
     (let (ops, e) = shuffle S (opcode p) (engine p);
          (a, s') = random_loop B ops before s
      in (a, p\<lparr>engine := e, opcode := ops\<rparr>, s'))"

text \<open>\<^verbatim>\<open>player::greedy_action(before)\<close>; \<open>best_op\<close> is an \<^verbatim>\<open>int\<close> that starts at \<open>-1\<close>.
  \<open>greedy_round\<close> is the body of the loop, on the loop state
  \<open>(max_reward, best_op)\<close> and the store.\<close>

definition greedy_round ::
  "board_iface \<Rightarrow> addr \<Rightarrow> nat \<Rightarrow> int \<times> int \<times> store \<Rightarrow> int \<times> int \<times> store" where
  "greedy_round B before op = (\<lambda>(max_reward, best_op, s).
     let (tmp, s1) = board_copy before s;
         (reward, s2) = slide_at B op tmp s1;
         s3 = board_destroy s2
     in if reward \<noteq> -1 \<and> max_reward \<le> reward
        then (reward, int op, s3)
        else (max_reward, best_op, s3))"

definition greedy_action ::
  "board_iface \<Rightarrow> 'e player \<Rightarrow> addr \<Rightarrow> store \<Rightarrow> act \<times> store" where
  "greedy_action B p before s =
     (let (max_reward, best_op, s') = fold (greedy_round B before) (opcode p) (0, -1, s)
      in (if best_op \<noteq> -1 then Slide (nat best_op) else NoAction, s'))"

text \<open>\<^verbatim>\<open>player::heuristic_action(before)\<close>; \<^verbatim>\<open>tree_search(after)\<close> runs with the default
  \<^verbatim>\<open>search_depth = 1\<close>. \<open>heuristic_round\<close> is the body of the loop, on the loop state
  \<open>(max_score, best_op)\<close> and the store; the local \<open>after\<close> dies at the end of the round.\<close>

definition heuristic_round ::
  "board_iface \<Rightarrow> 'e player \<Rightarrow> addr \<Rightarrow> nat \<Rightarrow> int \<times> int \<times> store \<Rightarrow> int \<times> int \<times> store" where
  "heuristic_round B p before op = (\<lambda>(max_score, best_op, s).
     let (after, s1) = board_copy before s;
         (reward, s2) = slide_at B op after s1
     in if reward \<noteq> -1
        then (let (critic, s3) = tree_search B p after 1 s2
              in if max_score \<le> reward + critic
                 then (reward + critic, int op, board_destroy s3)
                 else (max_score, best_op, board_destroy s3))
        else (max_score, best_op, board_destroy s2))"

definition heuristic_action ::
  "board_iface \<Rightarrow> 'e player \<Rightarrow> addr \<Rightarrow> store \<Rightarrow> act \<times> store" where
  "heuristic_action B p before s =
     (let (max_score, best_op, s') = fold (heuristic_round B p before) (opcode p) (0, -1, s)
      in (if best_op \<noteq> -1 then Slide (nat best_op) else NoAction, s'))"

text \<open>\<^verbatim>\<open>player::take_action(before)\<close>: the dispatch on \<open>play_type\<close>.\<close>

definition take_action ::
  "board_iface \<Rightarrow> 'e std_iface \<Rightarrow> 'e player \<Rightarrow> addr \<Rightarrow> store \<Rightarrow> act \<times> 'e player \<times> store" where
  "take_action B S p before s =
     (if play_type p = ''greedy''
      then (let (a, s') = greedy_action B p before s in (a, p, s'))
      else if play_type p = ''heuristic''
      then (let (a, s') = heuristic_action B p before s in (a, p, s'))
      else random_action B S p before s)"

section \<open>Notions used to state the properties\<close>

text \<open>A direction is legal on a board when sliding it does not return the sentinel \<open>-1\<close>;
  \<open>immediate_reward\<close> is the reward of the slide and \<open>slid\<close> the board after it.\<close>

definition immediate_reward :: "board_iface \<Rightarrow> board \<Rightarrow> nat \<Rightarrow> int" where
  "immediate_reward B b op = snd (slide B op b)"

definition slid :: "board_iface \<Rightarrow> board \<Rightarrow> nat \<Rightarrow> board" where
  "slid B b op = fst (slide B op b)"

definition legal :: "board_iface \<Rightarrow> board \<Rightarrow> nat \<Rightarrow> bool" where
  "legal B b op \<longleftrightarrow> immediate_reward B b op \<noteq> -1"

text \<open>The store \<open>s'\<close> has the stack top of \<open>s\<close> and the same board at every address
  below it: no board object that is live in \<open>s\<close> has changed.\<close>

definition unchanged_below :: "store \<Rightarrow> store \<Rightarrow> bool" where
  "unchanged_below s s' \<longleftrightarrow>
     stack_top s' = stack_top s \<and> (\<forall>a. a < stack_top s \<longrightarrow> boards s' a = boards s a)"

text \<open>A store with a single live board object, at address 0.\<close>

definition single_board :: "board \<Rightarrow> store" where
  "single_board b = \<lparr>boards = (\<lambda>a. b), stack_top = 1\<rparr>"

text \<open>The values of \<open>evaluate_board\<close> and \<open>tree_search\<close> on a board.\<close>

definition evaluate :: "board_iface \<Rightarrow> 'e player \<Rightarrow> board \<Rightarrow> int" where
  "evaluate B p b = fst (evaluate_board B p 0 (single_board b))"

definition search_value :: "board_iface \<Rightarrow> 'e player \<Rightarrow> board \<Rightarrow> int \<Rightarrow> int" where
  "search_value B p b d = fst (tree_search B p 0 d (single_board b))"

text \<open>The sum of the run scores of the player's scoring lines under the four rotations
  of a board.\<close>

definition run_scores :: "board_iface \<Rightarrow> 'e player \<Rightarrow> board \<Rightarrow> int" where
  "run_scores B p b =
     (\<Sum>t\<leftarrow>tuples p. \<Sum>k\<leftarrow>[0..<4]. cal_decreasing_score B t ((rotate_left ^^ k) b))"

text \<open>
  The search as the specification words it: the branch of a legal direction scores its
  immediate reward plus the search of the board after the slide one level down, the
  branch of an illegal direction scores 0, and the result is the maximum over the four
  directions.
\<close>

definition branch_score :: "board_iface \<Rightarrow> 'e player \<Rightarrow> board \<Rightarrow> int \<Rightarrow> nat \<Rightarrow> int" where
  "branch_score B p b d op =
     (if legal B b op then immediate_reward B b op + search_value B p (slid B b op) (d - 1)
      else 0)"

definition tree_search_spec :: "board_iface \<Rightarrow> 'e player \<Rightarrow> board \<Rightarrow> int \<Rightarrow> int" where
  "tree_search_spec B p b d = Max (branch_score B p b d ` {0, 1, 2, 3})"

text \<open>A line of cell values is strictly monotonic when it is strictly increasing or
  strictly decreasing from end to end.\<close>

definition strictly_monotonic :: "cell list \<Rightarrow> bool" where
  "strictly_monotonic vs \<longleftrightarrow> sorted_wrt (<) vs \<or> sorted_wrt (>) vs"

text \<open>The index that \<open>rotate_left\<close> reads for the cell \<open>i\<close> of the rotated board.\<close>

definition rotate_index :: "nat \<Rightarrow> nat" where
  "rotate_index i = 4 * (i mod 4) + (3 - i div 4)"

section \<open>A concrete instance of the interfaces\<close>

text \<open>
  The theorems below hold for every board interface \<open>B\<close> and every library \<open>S\<close>. To run
  them on concrete boards, this section fixes one instance.

  Modelled from the spec: \<^verbatim>\<open>board::slide\<close> and \<^verbatim>\<open>board::map_to_fibonacci\<close> are defined in
  board.h, which is missing. The spec describes a slide as a board-wide move in one of
  4 directions that shifts and merges tiles, illegal when nothing changes, with the
  score gained from the merges as its reward and \<open>-1\<close> as the sentinel; and the weight
  of a cell as a fixed increasing mapping with Fibonacci-like growth. The instance
  shifts each line towards the side of the move, merges two equal neighbours into the
  next level, and rewards a merge with the weight of the tile it makes.
\<close>

definition board_of :: "cell list \<Rightarrow> board" where
  "board_of xs = (\<lambda>i. if i < length xs then xs ! i else 0)"

fun tile_weight :: "nat \<Rightarrow> int" where
  "tile_weight 0 = 0"
| "tile_weight (Suc 0) = 1"
| "tile_weight (Suc (Suc 0)) = 2"
| "tile_weight (Suc (Suc (Suc n))) = tile_weight (Suc n) + tile_weight (Suc (Suc n))"

fun merge_line :: "cell list \<Rightarrow> cell list \<times> int" where
  "merge_line (x # y # xs) =
     (if x = y
      then (let (zs, r) = merge_line xs in ((x + 1) # zs, r + tile_weight (unat (x + 1))))
      else (let (zs, r) = merge_line (y # xs) in (x # zs, r)))"
| "merge_line xs = (xs, 0)"

definition slide_line :: "cell list \<Rightarrow> cell list \<times> int" where
  "slide_line vs =
     (let (zs, r) = merge_line (filter (\<lambda>v. v \<noteq> 0) vs)
      in (zs @ replicate (length vs - length zs) 0, r))"

text \<open>The four lines of a move, each listed from the side the tiles move to:
  0 is up, 1 right, 2 down, 3 left.\<close>

definition slide_lines :: "nat \<Rightarrow> nat list list" where
  "slide_lines op =
     (if op = 0 then [[0, 4, 8, 12], [1, 5, 9, 13], [2, 6, 10, 14], [3, 7, 11, 15]]
      else if op = 1 then [[3, 2, 1, 0], [7, 6, 5, 4], [11, 10, 9, 8], [15, 14, 13, 12]]
      else if op = 2 then [[12, 8, 4, 0], [13, 9, 5, 1], [14, 10, 6, 2], [15, 11, 7, 3]]
      else [[0, 1, 2, 3], [4, 5, 6, 7], [8, 9, 10, 11], [12, 13, 14, 15]])"

definition ex_slide :: "nat \<Rightarrow> board \<Rightarrow> board \<times> int" where
  "ex_slide op b =
     (let (b', reward) =
            fold (\<lambda>line (b', reward).
                    let (vs, r) = slide_line (map b line)
                    in (fold (\<lambda>(i, v) c. c(i := v)) (zip line vs) b', reward + r))
              (slide_lines op) (b, 0)
      in if list_all (\<lambda>i. b' i = b i) [0..<16] then (b, -1) else (b', reward))"

definition ex_B :: board_iface where
  "ex_B = \<lparr>slide = ex_slide, map_to_fibonacci = (\<lambda>c. tile_weight (unat c))\<rparr>"

text \<open>
  A deterministic stand-in for the random engine: the state is a counter, a shuffle
  rotates the array by one place, a draw from \<open>lo..hi\<close> is \<open>lo\<close> plus the counter modulo
  the size of the range; every call advances the counter. The conversion of a seed
  string accepts nothing.
\<close>

definition ex_S :: "nat std_iface" where
  "ex_S = \<lparr>shuffle = (\<lambda>xs e. (rotate1 xs, Suc e)),
           uniform_int = (\<lambda>lo hi e. (lo + int e mod (hi - lo + 1), Suc e)),
           seed = nat, default_engine = 1,
           stod_int = (\<lambda>str. Inl StodInvalidArgument)\<rparr>"

text \<open>The player built from an argument string without seed, and the environment
  built from such a string with the engine in state \<open>e\<close>.\<close>

definition ex_player :: "string \<Rightarrow> nat player" where
  "ex_player args =
     \<lparr>meta = meta (agent (''name=dummy role=player '' @ args)), engine = 1,
      opcode = [0, 1, 2, 3], tuples = [[0, 1, 2, 3]], play_type = args\<rparr>"

definition ex_rndenv :: "string \<Rightarrow> nat \<Rightarrow> nat rndenv" where
  "ex_rndenv args e =
     \<lparr>meta = meta (agent (''name=random role=environment '' @ args)),
      engine = e,
      space = [0, 1, 2, 3, 4, 5, 6, 7, 8, 9, 10, 11, 12, 13, 14, 15], popup = (0, 9)\<rparr>"

text \<open>Boards: two equal tiles side by side in the top row; an increasing top row; a full
  board whose four border lines are not monotonic; a full board without a legal move.\<close>

definition board_pair :: board where
  "board_pair = board_of [1, 1, 0, 0,  0, 0, 0, 0,  0, 0, 0, 0,  0, 0, 0, 0]"

definition board_row :: board where
  "board_row = board_of [1, 2, 3, 4,  0, 0, 0, 0,  0, 0, 0, 0,  0, 0, 0, 0]"

definition board_full :: board where
  "board_full = board_of [1, 3, 2, 4,  3, 1, 1, 1,  2, 1, 1, 2,  4, 2, 3, 1]"

definition board_stuck :: board where
  "board_stuck = board_of [1, 2, 1, 2,  2, 1, 2, 1,  1, 2, 1, 2,  2, 1, 2, 1]"

text \<open>The player \<open>ex_player []\<close> after two calls of its public \<open>random_action\<close>, each of
  which shuffles \<open>opcode\<close> in place.\<close>

definition ex_player_shuffled :: "nat player" where
  "ex_player_shuffled =
     fst (snd (random_action ex_B ex_S
       (fst (snd (random_action ex_B ex_S (ex_player []) 0 (single_board board_pair))))
       0 (single_board board_pair)))"

section \<open>The rotation of the board\<close>

lemma mod4_of_sum: "r < 4 \<Longrightarrow> (4 * k + r) mod 4 = (r::nat)"
  by simp

lemma rotate_index_div: "i < 16 \<Longrightarrow> rotate_index i div 4 = i mod 4"
  unfolding rotate_index_def by simp

lemma rotate_index_mod: "i < 16 \<Longrightarrow> rotate_index i mod 4 = 3 - i div 4"
  unfolding rotate_index_def by (rule mod4_of_sum) simp

lemma rotate_index_less: "i < 16 \<Longrightarrow> rotate_index i < 16"
  unfolding rotate_index_def by simp

lemma rotate_index4:
  assumes "i < 16"
  shows "rotate_index (rotate_index (rotate_index (rotate_index i))) = i"
proof -
  let ?j = "rotate_index (rotate_index (rotate_index i))"
  have "rotate_index ?j = 4 * (?j mod 4) + (3 - ?j div 4)"
    by (simp add: rotate_index_def)
  also have "\<dots> = 4 * (3 - rotate_index (rotate_index i) div 4)
                    + (3 - rotate_index (rotate_index i) mod 4)"
    using assms by (simp add: rotate_index_div rotate_index_mod rotate_index_less)
  also have "\<dots> = 4 * (3 - rotate_index i mod 4) + (3 - (3 - rotate_index i div 4))"
    using assms by (simp add: rotate_index_div rotate_index_mod rotate_index_less)
  also have "\<dots> = 4 * (3 - (3 - i div 4)) + (3 - (3 - i mod 4))"
    using assms by (simp add: rotate_index_div rotate_index_mod rotate_index_less)
  also have "\<dots> = i"
    using assms by simp
  finally show ?thesis .
qed

lemma rotate_left_apply:
  "rotate_left b i = (if i < 16 then b (rotate_index i) else b i)"
  by (simp add: rotate_left_def rotate_index_def)

lemma rotate_left4: "rotate_left (rotate_left (rotate_left (rotate_left b))) = b"
proof
  fix i
  show "rotate_left (rotate_left (rotate_left (rotate_left b))) i = b i"
    by (simp add: rotate_left_apply rotate_index_less rotate_index4)
qed

lemma rotate_left_at4:
  "rotate_left_at a (rotate_left_at a (rotate_left_at a (rotate_left_at a s))) = s"
  by (simp add: rotate_left_at_def rotate_left4)

section \<open>The evaluation engine: value and store\<close>

lemma evaluate_rounds:
  "fold (\<lambda>i (score, s). (score + cal_decreasing_score B t (boards s a), rotate_left_at a s))
     [0..<4] (sc, s)
   = (sc + (\<Sum>k\<leftarrow>[0..<4]. cal_decreasing_score B t ((rotate_left ^^ k) (boards s a))), s)"
proof -
  have u: "[0..<4] = [0, 1, 2, 3]" by code_simp
  have r: "rotate_left_at a (rotate_left_at a (rotate_left_at a (rotate_left_at a s))) = s"
    by (rule rotate_left_at4)
  show ?thesis
    unfolding u by (simp add: r) (simp add: rotate_left_at_def eval_nat_numeral)
qed

lemma evaluate_tuples:
  "fold (\<lambda>tuple. fold (\<lambda>i (score, s).
            (score + cal_decreasing_score B tuple (boards s a), rotate_left_at a s)) [0..<4])
     ts (sc, s)
   = (sc + (\<Sum>t\<leftarrow>ts. \<Sum>k\<leftarrow>[0..<4].
              cal_decreasing_score B t ((rotate_left ^^ k) (boards s a))), s)"
  by (induction ts arbitrary: sc) (simp_all add: evaluate_rounds add.assoc)

lemma evaluate_board_eq:
  "evaluate_board B p a s =
     ((\<Sum>t\<leftarrow>tuples p. \<Sum>k\<leftarrow>[0..<4].
          cal_decreasing_score B t ((rotate_left ^^ k) (boards s a)))
      + cal_space_score (boards s a), s)"
  by (simp add: evaluate_board_def evaluate_tuples)


lemma rounds_rotations:
  "snd (fold (\<lambda>i (score, s). (score + cal_decreasing_score B t (boards s a), rotate_left_at a s))
          [0..<4] (sc, s))
   = (rotate_left_at a ^^ 4) s"
proof -
  have u: "[0..<4] = [0, 1, 2, 3]" by code_simp
  show ?thesis unfolding u by (simp add: eval_nat_numeral)
qed

lemma tuples_rotations:
  "snd (fold (\<lambda>tuple. fold (\<lambda>i (score, s).
            (score + cal_decreasing_score B tuple (boards s a), rotate_left_at a s)) [0..<4])
          ts (sc, s))
   = (rotate_left_at a ^^ (4 * length ts)) s"
proof (induction ts arbitrary: sc s)
  case Nil
  show ?case by simp
next
  case (Cons t ts)
  obtain sc' s' where step:
    "fold (\<lambda>i (score, s). (score + cal_decreasing_score B t (boards s a), rotate_left_at a s))
       [0..<4] (sc, s) = (sc', s')"
    by (cases "fold (\<lambda>i (score, s). (score + cal_decreasing_score B t (boards s a), rotate_left_at a s))
       [0..<4] (sc, s)")
  have s': "s' = (rotate_left_at a ^^ 4) s"
    using rounds_rotations [of B t a sc s] step by simp
  have "(rotate_left_at a ^^ (4 * length (t # ts))) s
        = (rotate_left_at a ^^ (4 * length ts + 4)) s"
    by (simp add: add.commute)
  also have "\<dots> = (rotate_left_at a ^^ (4 * length ts)) s'"
    unfolding s' funpow_add by simp
  finally show ?case
    using Cons.IH [of sc' s'] step by simp
qed

text \<open>
  C10: for every board, \<open>evaluate_board\<close> leaves the board object it is given as it was
  before the call. It applies \<open>rotate_left\<close> four times for each scoring line, and four
  quarter turns restore the board; the store after the call is the store before it.
\<close>

theorem evaluate_board_restores_board:
  "snd (evaluate_board B p after s) = (rotate_left_at after ^^ (4 * length (tuples p))) s
   \<and> snd (evaluate_board B p after s) = s"
proof
  show "snd (evaluate_board B p after s) = s"
    by (simp add: evaluate_board_eq)
  show "snd (evaluate_board B p after s) = (rotate_left_at after ^^ (4 * length (tuples p))) s"
    using tuples_rotations [of B after "tuples p" 0 s]
    by (simp add: evaluate_board_def case_prod_beta)
qed

section \<open>The run score\<close>

lemma cal_decreasing_loop_nonzero:
  "cal_decreasing_loop B t b idxs (d, inc, sc) \<noteq> 0 \<Longrightarrow>
     (d \<and> (\<forall>i\<in>set idxs. b (t ! i) < b (t ! (i - 1))))
     \<or> (inc \<and> (\<forall>i\<in>set idxs. b (t ! (i - 1)) < b (t ! i)))"
proof (induction idxs arbitrary: d inc sc)
  case Nil
  then show ?case by (simp split: if_splits)
next
  case (Cons i rest)
  show ?case
  proof (cases "b (t ! i) = b (t ! (i - 1))")
    case True
    with Cons.prems show ?thesis by simp
  next
    case neq: False
    show ?thesis
    proof (cases "b (t ! (i - 1)) < b (t ! i)")
      case True
      with neq Cons.prems
      have "cal_decreasing_loop B t b rest
              (False, inc, sc + map_to_fibonacci B (b (t ! i))) \<noteq> 0"
        by (simp add: Let_def)
      from Cons.IH [OF this] True show ?thesis by simp
    next
      case False
      with neq have lt: "b (t ! i) < b (t ! (i - 1))" by simp
      from False neq Cons.prems
      have "cal_decreasing_loop B t b rest
              (d, False, sc + map_to_fibonacci B (b (t ! i))) \<noteq> 0"
        by (simp add: Let_def)
      from Cons.IH [OF this] lt show ?thesis by simp
    qed
  qed
qed

lemma cal_decreasing_score_nonzero:
  assumes "cal_decreasing_score B t b \<noteq> 0"
  shows "strictly_monotonic (map b t)"
proof -
  from assms have
    "(\<forall>i\<in>set [1..<length t]. b (t ! i) < b (t ! (i - 1)))
     \<or> (\<forall>i\<in>set [1..<length t]. b (t ! (i - 1)) < b (t ! i))"
    unfolding cal_decreasing_score_def
    using cal_decreasing_loop_nonzero [of B t b "[1..<length t]" True True 0] by simp
  then show ?thesis
  proof
    assume dec: "\<forall>i\<in>set [1..<length t]. b (t ! i) < b (t ! (i - 1))"
    have "sorted_wrt (>) (map b t)"
      unfolding sorted_wrt_iff_nth_Suc_transp [OF transp_on_greater]
    proof (intro allI impI)
      fix i assume "Suc i < length (map b t)"
      then have "Suc i \<in> set [1..<length t]" by simp
      from dec [rule_format, OF this] show "map b t ! Suc i < map b t ! i"
        using \<open>Suc i < length (map b t)\<close> by simp
    qed
    then show ?thesis by (simp add: strictly_monotonic_def)
  next
    assume inc: "\<forall>i\<in>set [1..<length t]. b (t ! (i - 1)) < b (t ! i)"
    have "sorted_wrt (<) (map b t)"
      unfolding sorted_wrt_iff_nth_Suc_transp [OF transp_on_less]
    proof (intro allI impI)
      fix i assume "Suc i < length (map b t)"
      then have "Suc i \<in> set [1..<length t]" by simp
      from inc [rule_format, OF this] show "map b t ! i < map b t ! Suc i"
        using \<open>Suc i < length (map b t)\<close> by simp
    qed
    then show ?thesis by (simp add: strictly_monotonic_def)
  qed
qed

section \<open>The space score\<close>

lemma space_counter_fold:
  "fold (\<lambda>i c. c + (if b i = 0 then 1 else 0)) idxs (c0::int)
   = c0 + int (length (filter (\<lambda>i. b i = 0) idxs))"
  by (induction idxs arbitrary: c0) simp_all

lemma cal_space_score_eq:
  "cal_space_score b = 5 * int (card {i. i < 16 \<and> b i = 0})"
proof -
  have "{i. i < 16 \<and> b ([0..<16] ! i) = 0} = {i. i < 16 \<and> b i = 0}"
    by auto
  then have "length (filter (\<lambda>i. b i = 0) [0..<16]) = card {i. i < 16 \<and> b i = 0}"
    by (simp add: length_filter_conv_card)
  then show ?thesis
    by (simp add: cal_space_score_def space_counter_fold)
qed

lemma cal_space_score_full: "\<forall>i<16. b i \<noteq> 0 \<Longrightarrow> cal_space_score b = 0"
  by (simp add: cal_space_score_eq)

lemma cal_space_score_clear:
  assumes "p < 16" and "b p \<noteq> 0"
  shows "cal_space_score (b(p := 0)) = cal_space_score b + 5"
proof -
  have "{i. i < 16 \<and> (b(p := 0)) i = 0} = insert p {i. i < 16 \<and> b i = 0}"
    using assms by auto
  moreover have "p \<notin> {i. i < 16 \<and> b i = 0}" using assms by simp
  moreover have "finite {i. i < 16 \<and> b i = 0}" by simp
  ultimately have "card {i. i < 16 \<and> (b(p := 0)) i = 0} = Suc (card {i. i < 16 \<and> b i = 0})"
    by simp
  then show ?thesis by (simp add: cal_space_score_eq)
qed


section \<open>Bounded quantifiers as list checks\<close>

lemma all_below_upt: "(\<forall>i<n. P i) \<longleftrightarrow> list_all P [0..<n]"
  by (auto simp: list_all_iff)

lemma sum_list_zeros: "(\<And>x. x \<in> set xs \<Longrightarrow> f x = (0::int)) \<Longrightarrow> sum_list (map f xs) = 0"
  by (induction xs) simp_all

lemma ball_set_list_all: "(\<forall>x\<in>set xs. P x) \<longleftrightarrow> list_all P xs"
  by (simp add: list_all_iff)

section \<open>Evaluation of full boards without a monotonic line\<close>

text \<open>
  C6: for every board with zero empty cells on which, under each of the 4 rotations,
  every scoring line of the player is not strictly monotonic (which includes a line
  with two equal neighbours), \<open>evaluate_board\<close> returns exactly 0.
\<close>

theorem evaluate_full_nonmonotonic_zero:
  assumes full: "\<forall>i<16. boards s a i \<noteq> 0"
    and lines: "\<forall>t\<in>set (tuples p). \<forall>k<4.
                  \<not> strictly_monotonic (map ((rotate_left ^^ k) (boards s a)) t)"
  shows "fst (evaluate_board B p a s) = 0"
proof -
  have run: "cal_decreasing_score B t ((rotate_left ^^ k) (boards s a)) = 0"
    if "t \<in> set (tuples p)" and "k \<in> set [0..<4]" for t k
    using that lines cal_decreasing_score_nonzero [of B t "(rotate_left ^^ k) (boards s a)"]
    by auto
  have "(\<Sum>t\<leftarrow>tuples p. \<Sum>k\<leftarrow>[0..<4].
           cal_decreasing_score B t ((rotate_left ^^ k) (boards s a))) = 0"
    by (intro sum_list_zeros run)
  then show ?thesis
    by (simp add: evaluate_board_eq cal_space_score_full [OF full])
qed

theorem evaluate_full_nonmonotonic_zero_witness:
  "fst (evaluate_board ex_B (ex_player []) 0 (single_board board_full)) = 0"
proof -
  have full: "\<forall>i<16. boards (single_board board_full) 0 i \<noteq> 0"
    unfolding all_below_upt by code_simp
  have lines: "\<forall>t\<in>set (tuples (ex_player [])). \<forall>k<4.
      \<not> strictly_monotonic (map ((rotate_left ^^ k) (boards (single_board board_full) 0)) t)"
    unfolding all_below_upt ball_set_list_all by code_simp
  show ?thesis
    by (rule evaluate_full_nonmonotonic_zero [OF full lines])
qed

section \<open>Clearing one cell\<close>

lemma rotate_left_border:
  "rotate_left b 0 = b 3" "rotate_left b (Suc 0) = b 7" "rotate_left b 2 = b 11"
  "rotate_left b 3 = b 15" "rotate_left b 7 = b 14" "rotate_left b 11 = b 13"
  "rotate_left b 15 = b 12" "rotate_left b 14 = b 8" "rotate_left b 13 = b 4"
  "rotate_left b 12 = b 0"
  by (simp_all add: rotate_left_def)

lemma line_reads:
  assumes "j \<in> {0, 1, 2, 3}"
  shows "rotate_left b j = b (4 * j + 3)"
    and "rotate_left (rotate_left b) j = b (15 - j)"
    and "rotate_left (rotate_left (rotate_left b)) j = b (12 - 4 * j)"
  using assms by (auto simp: rotate_left_border)

lemma interior_not_read:
  assumes p: "p \<in> {5, 6, 9, 10}" and j: "j \<in> {0, 1, 2, 3}"
  shows "(b(p := v)) j = b j"
    and "rotate_left (b(p := v)) j = rotate_left b j"
    and "rotate_left (rotate_left (b(p := v))) j = rotate_left (rotate_left b) j"
    and "rotate_left (rotate_left (rotate_left (b(p := v)))) j
         = rotate_left (rotate_left (rotate_left b)) j"
proof -
  have ne: "j \<noteq> p" "4 * j + 3 \<noteq> p" "15 - j \<noteq> p" "12 - 4 * j \<noteq> p"
    using p j by auto
  show "(b(p := v)) j = b j"
    using ne by simp
  show "rotate_left (b(p := v)) j = rotate_left b j"
    using ne by (simp add: line_reads(1) [OF j])
  show "rotate_left (rotate_left (b(p := v))) j = rotate_left (rotate_left b) j"
    using ne by (simp add: line_reads(2) [OF j])
  show "rotate_left (rotate_left (rotate_left (b(p := v)))) j
         = rotate_left (rotate_left (rotate_left b)) j"
    using ne by (simp add: line_reads(3) [OF j])
qed

lemma cal_decreasing_loop_cong:
  "\<forall>i\<in>set idxs. b (t ! i) = b' (t ! i) \<and> b (t ! (i - 1)) = b' (t ! (i - 1)) \<Longrightarrow>
   cal_decreasing_loop B t b idxs (d, inc, sc) = cal_decreasing_loop B t b' idxs (d, inc, sc)"
  by (induction idxs arbitrary: d inc sc) (simp_all add: Let_def)

lemma cal_decreasing_score_line:
  assumes "\<And>j. j \<in> {0, 1, 2, 3} \<Longrightarrow> b j = b' j"
  shows "cal_decreasing_score B [0, 1, 2, 3] b = cal_decreasing_score B [0, 1, 2, 3] b'"
proof -
  have u: "[1..<length [0::nat, 1, 2, 3]] = [1, 2, 3]" by code_simp
  have "b 0 = b' 0" "b 1 = b' 1" "b 2 = b' 2" "b 3 = b' 3"
    by (simp_all add: assms)
  then show ?thesis
    unfolding cal_decreasing_score_def u
    by (intro cal_decreasing_loop_cong) simp
qed

lemma funpow2: "(f ^^ 2) x = f (f x)"
  by (simp add: numeral_2_eq_2)

lemma funpow3: "(f ^^ 3) x = f (f (f x))"
  by (simp add: numeral_3_eq_3)

lemma run_scores_interior:
  assumes "p \<in> {5, 6, 9, 10}"
  shows "(\<Sum>k\<leftarrow>[0..<4]. cal_decreasing_score B [0, 1, 2, 3] ((rotate_left ^^ k) (b(p := v))))
       = (\<Sum>k\<leftarrow>[0..<4]. cal_decreasing_score B [0, 1, 2, 3] ((rotate_left ^^ k) b))"
proof -
  have u: "[0..<4] = [0, 1, 2, 3]" by code_simp
  have r0: "cal_decreasing_score B [0, 1, 2, 3] (b(p := v))
            = cal_decreasing_score B [0, 1, 2, 3] b"
    by (rule cal_decreasing_score_line) (rule interior_not_read(1) [OF assms])
  have r1: "cal_decreasing_score B [0, 1, 2, 3] (rotate_left (b(p := v)))
            = cal_decreasing_score B [0, 1, 2, 3] (rotate_left b)"
    by (rule cal_decreasing_score_line) (rule interior_not_read(2) [OF assms])
  have r2: "cal_decreasing_score B [0, 1, 2, 3] (rotate_left (rotate_left (b(p := v))))
            = cal_decreasing_score B [0, 1, 2, 3] (rotate_left (rotate_left b))"
    by (rule cal_decreasing_score_line) (rule interior_not_read(3) [OF assms])
  have r3: "cal_decreasing_score B [0, 1, 2, 3]
              (rotate_left (rotate_left (rotate_left (b(p := v)))))
            = cal_decreasing_score B [0, 1, 2, 3] (rotate_left (rotate_left (rotate_left b)))"
    by (rule cal_decreasing_score_line) (rule interior_not_read(4) [OF assms])
  show ?thesis
    unfolding u using r0 r1 r2 r3 by (simp add: funpow2 funpow3)
qed

text \<open>
  C5 as stated fails on a border cell. With the top row 1, 2, 3, 4 and the rest of the
  board empty, the run score of the top row is 2 + 3 + 5 and the evaluation
  10 + 5 * 12 = 70. Clearing cell 3 leaves the row 1, 2, 3, 0, which is not monotonic:
  the evaluation is 5 * 13 = 65, not 75.
\<close>

theorem evaluate_clear_cell_counterexample:
  "board_row 3 \<noteq> 0
   \<and> evaluate ex_B (ex_player []) board_row = 70
   \<and> evaluate ex_B (ex_player []) (board_row(3 := 0)) = 65"
  by code_simp

lemma evaluate_parts: "evaluate B pl b = run_scores B pl b + cal_space_score b"
  by (simp add: evaluate_def evaluate_board_eq run_scores_def single_board_def del: upt_Suc)

text \<open>
  C5 (amended): for every board \<open>b\<close> and every position \<open>p < 16\<close> with \<open>b p\<close> nonzero,
  setting cell \<open>p\<close> to 0 raises the space score by exactly 5, so that the evaluation
  changes by 5 plus the change of the run scores; when \<open>p\<close> is one of the four inner
  cells 5, 6, 9, 10, which the scoring line 0, 1, 2, 3 reads under no rotation, the
  evaluation rises by exactly 5.
\<close>

theorem evaluate_clear_cell:
  assumes "p < 16" and "b p \<noteq> 0"
  shows "cal_space_score (b(p := 0)) = cal_space_score b + 5
         \<and> evaluate B pl (b(p := 0))
             = evaluate B pl b + 5 + (run_scores B pl (b(p := 0)) - run_scores B pl b)
         \<and> (tuples pl = [[0, 1, 2, 3]] \<and> p \<in> {5, 6, 9, 10}
              \<longrightarrow> evaluate B pl (b(p := 0)) = evaluate B pl b + 5)"
proof (intro conjI impI)
  show space: "cal_space_score (b(p := 0)) = cal_space_score b + 5"
    using assms by (rule cal_space_score_clear)
  show "evaluate B pl (b(p := 0))
        = evaluate B pl b + 5 + (run_scores B pl (b(p := 0)) - run_scores B pl b)"
    by (simp add: evaluate_parts space)
  assume "tuples pl = [[0, 1, 2, 3]] \<and> p \<in> {5, 6, 9, 10}"
  then have t: "tuples pl = [[0, 1, 2, 3]]" and p: "p \<in> {5, 6, 9, 10}"
    by simp_all
  have "run_scores B pl (b(p := 0)) = run_scores B pl b"
    unfolding run_scores_def t using run_scores_interior [OF p, of B b 0]
    by (simp del: upt_Suc)
  then show "evaluate B pl (b(p := 0)) = evaluate B pl b + 5"
    by (simp add: evaluate_parts space)
qed

theorem evaluate_clear_cell_witness:
  "cal_space_score (board_full(5 := 0)) = cal_space_score board_full + 5
   \<and> evaluate ex_B (ex_player []) (board_full(5 := 0))
       = evaluate ex_B (ex_player []) board_full + 5"
proof -
  have nz: "board_full 5 \<noteq> 0" by code_simp
  have t: "tuples (ex_player []) = [[0, 1, 2, 3]]" by (simp add: ex_player_def)
  show ?thesis
    using evaluate_clear_cell [where p = 5 and b = board_full and B = ex_B and pl = "ex_player []"]
      nz t by simp
qed

section \<open>Construction of the agents\<close>

lemma extract_words_space:
  "isspace c \<Longrightarrow> extract_words (xs @ c # ys) w = extract_words xs w @ extract_words ys []"
  by (induction xs arbitrary: w) simp_all

lemma meta_fold_None:
  "fold (\<lambda>pair m. m(pair_key pair \<mapsto> pair_value pair)) ps m k = None
   \<longleftrightarrow> m k = None \<and> k \<notin> pair_key ` set ps"
  by (induction ps arbitrary: m) auto

lemma isspace_blank: "isspace CHR '' ''"
  by (simp add: isspace_def)

lemma agent_words:
  "extract_words (''name=unknown role=unknown '' @ args) []
   = [''name=unknown'', ''role=unknown''] @ extract_words args []"
proof -
  have "''name=unknown role=unknown '' @ args = ''name=unknown role=unknown'' @ CHR '' '' # args"
    by simp
  moreover have "extract_words ''name=unknown role=unknown'' [] = [''name=unknown'', ''role=unknown'']"
    by code_simp
  ultimately show ?thesis
    by (simp only: extract_words_space [OF isspace_blank])
qed

lemma player_words:
  "extract_words (''name=dummy role=player '' @ args) []
   = [''name=dummy'', ''role=player''] @ extract_words args []"
proof -
  have "''name=dummy role=player '' @ args = ''name=dummy role=player'' @ CHR '' '' # args"
    by simp
  moreover have "extract_words ''name=dummy role=player'' [] = [''name=dummy'', ''role=player'']"
    by code_simp
  ultimately show ?thesis
    by (simp only: extract_words_space [OF isspace_blank])
qed

lemma rndenv_words:
  "extract_words (''name=random role=environment '' @ args) []
   = [''name=random'', ''role=environment''] @ extract_words args []"
proof -
  have "''name=random role=environment '' @ args
        = ''name=random role=environment'' @ CHR '' '' # args"
    by simp
  moreover have "extract_words ''name=random role=environment'' []
                 = [''name=random'', ''role=environment'']"
    by code_simp
  ultimately show ?thesis
    by (simp only: extract_words_space [OF isspace_blank])
qed

lemma agent_meta_None:
  "meta (agent args) k = None
   \<longleftrightarrow> k \<notin> pair_key ` set (extract_words (''name=unknown role=unknown '' @ args) [])"
  by (simp add: agent_def meta_fold_None)

lemma agent_seed_None:
  "meta (agent args) ''seed'' = None \<longleftrightarrow> ''seed'' \<notin> pair_key ` set (extract_words args [])"
proof -
  have "pair_key ''name=unknown'' = ''name''" "pair_key ''role=unknown'' = ''role''"
    by (simp_all add: pair_key_def)
  then show ?thesis
    unfolding agent_meta_None agent_words by simp
qed

lemma random_agent_no_seed:
  assumes "''seed'' \<notin> pair_key ` set (extract_words args [])"
  shows "random_agent S args = Inr \<lparr>meta = meta (agent args), engine = default_engine S\<rparr>"
proof -
  have "meta (agent args) ''seed'' = None"
    using assms by (simp add: agent_seed_None)
  then show ?thesis
    by (simp add: random_agent_def)
qed

lemma no_seed_player_prefix:
  assumes "''seed'' \<notin> pair_key ` set (extract_words args [])"
  shows "''seed'' \<notin> pair_key ` set (extract_words (''name=dummy role=player '' @ args) [])"
  unfolding player_words using assms by (simp add: pair_key_def)

lemma no_seed_rndenv_prefix:
  assumes "''seed'' \<notin> pair_key ` set (extract_words args [])"
  shows "''seed'' \<notin> pair_key ` set (extract_words (''name=random role=environment '' @ args) [])"
  unfolding rndenv_words using assms by (simp add: pair_key_def)

text \<open>
  C8: for every argument string none of whose whitespace-separated pairs has the key
  \<open>seed\<close>, the construction of a \<open>random_agent\<close>, a \<open>player\<close> and a \<open>rndenv\<close> succeeds
  (no missing-key failure, no failure at all) and the engine is the default-constructed
  one: the seed entry is not read.
\<close>

theorem construction_without_seed:
  assumes "''seed'' \<notin> pair_key ` set (extract_words args [])"
  shows "random_agent S args = Inr \<lparr>meta = meta (agent args), engine = default_engine S\<rparr>
    \<and> player S args =
           Inr \<lparr>meta = meta (agent (''name=dummy role=player '' @ args)),
                engine = default_engine S,
                opcode = [0, 1, 2, 3], tuples = [[0, 1, 2, 3]], play_type = args\<rparr>
    \<and> rndenv S args =
           Inr \<lparr>meta = meta (agent (''name=random role=environment '' @ args)),
                engine = default_engine S,
                space = [0, 1, 2, 3, 4, 5, 6, 7, 8, 9, 10, 11, 12, 13, 14, 15],
                popup = (0, 9)\<rparr>"
proof (intro conjI)
  show "random_agent S args = Inr \<lparr>meta = meta (agent args), engine = default_engine S\<rparr>"
    using assms by (rule random_agent_no_seed)
  show "player S args =
           Inr \<lparr>meta = meta (agent (''name=dummy role=player '' @ args)),
                engine = default_engine S,
                opcode = [0, 1, 2, 3], tuples = [[0, 1, 2, 3]], play_type = args\<rparr>"
    unfolding player_def random_agent_no_seed [OF no_seed_player_prefix [OF assms]]
    by simp
  show "rndenv S args =
           Inr \<lparr>meta = meta (agent (''name=random role=environment '' @ args)),
                engine = default_engine S,
                space = [0, 1, 2, 3, 4, 5, 6, 7, 8, 9, 10, 11, 12, 13, 14, 15],
                popup = (0, 9)\<rparr>"
    unfolding rndenv_def random_agent_no_seed [OF no_seed_rndenv_prefix [OF assms]]
    by simp
qed

lemma player_no_seed:
  assumes "''seed'' \<notin> pair_key ` set (extract_words args [])"
  shows "player S args =
           Inr \<lparr>meta = meta (agent (''name=dummy role=player '' @ args)),
                engine = default_engine S,
                opcode = [0, 1, 2, 3], tuples = [[0, 1, 2, 3]], play_type = args\<rparr>"
  unfolding player_def random_agent_no_seed [OF no_seed_player_prefix [OF assms]]
  by simp

theorem construction_without_seed_witness:
  "random_agent ex_S ''greedy'' = Inr \<lparr>meta = meta (agent ''greedy''), engine = 1\<rparr>
   \<and> player ex_S ''greedy'' = Inr (ex_player ''greedy'')
   \<and> rndenv ex_S ''greedy'' = Inr (ex_rndenv ''greedy'' 1)"
proof -
  have g: "''seed'' \<notin> pair_key ` set (extract_words ''greedy'' [])" by code_simp
  have d: "default_engine ex_S = 1" by (simp add: ex_S_def)
  show ?thesis
    using construction_without_seed [OF g, of ex_S]
    unfolding d ex_player_def ex_rndenv_def by simp
qed

text \<open>With a seed entry, the construction reads it: it fails when \<^verbatim>\<open>std::stod\<close> does,
  and seeds the engine otherwise.\<close>

lemma random_agent_seed:
  assumes "meta (agent args) ''seed'' = Some v"
  shows "random_agent S args =
           (case stod_int S v of
              Inl e \<Rightarrow> Inl e
            | Inr n \<Rightarrow> Inr \<lparr>meta = meta (agent args), engine = seed S n\<rparr>)"
  using assms by (simp add: random_agent_def)

section \<open>The dispatch of take_action\<close>

lemma player_play_type: "player S args = Inr p \<Longrightarrow> play_type p = args"
  by (auto simp: player_def split: sum.splits)

text \<open>
  C9: the strategy mode of a constructed player is the whole argument string:
  \<open>take_action\<close> is the greedy selector when the string is exactly \<open>greedy\<close>, the
  heuristic selector when it is exactly \<open>heuristic\<close>, and the random selector for every
  other string, such as \<open>name=x greedy\<close>, which only contains the mode word.
\<close>

theorem take_action_dispatch:
  assumes "player S args = Inr p"
  shows "play_type p = args
    \<and> (args = ''greedy'' \<longrightarrow>
          take_action B S p before s = (let (a, s') = greedy_action B p before s in (a, p, s')))
    \<and> (args = ''heuristic'' \<longrightarrow>
          take_action B S p before s = (let (a, s') = heuristic_action B p before s in (a, p, s')))
    \<and> (args \<noteq> ''greedy'' \<and> args \<noteq> ''heuristic'' \<longrightarrow>
          take_action B S p before s = random_action B S p before s)"
  using player_play_type [OF assms] by (simp add: take_action_def)

theorem take_action_dispatch_witness:
  "player ex_S ''name=x greedy'' = Inr (ex_player ''name=x greedy'')
   \<and> take_action ex_B ex_S (ex_player ''name=x greedy'') 0 (single_board board_pair)
       = random_action ex_B ex_S (ex_player ''name=x greedy'') 0 (single_board board_pair)"
proof -
  have g: "''seed'' \<notin> pair_key ` set (extract_words ''name=x greedy'' [])" by code_simp
  have d: "default_engine ex_S = 1" by (simp add: ex_S_def)
  have p: "player ex_S ''name=x greedy'' = Inr (ex_player ''name=x greedy'')"
    unfolding player_no_seed [OF g] d ex_player_def by simp
  have ne: "''name=x greedy'' \<noteq> ''greedy'' \<and> ''name=x greedy'' \<noteq> ''heuristic''"
    by simp
  from take_action_dispatch [OF p, of ex_B 0 "single_board board_pair"] ne
  have "take_action ex_B ex_S (ex_player ''name=x greedy'') 0 (single_board board_pair)
       = random_action ex_B ex_S (ex_player ''name=x greedy'') 0 (single_board board_pair)"
    by blast
  with p show ?thesis by (rule conjI)
qed

text \<open>In the greedy and the heuristic mode \<open>take_action\<close> leaves the player as it is, the
  order of \<open>opcode\<close> included; the random selector stores the shuffled order.\<close>

lemma take_action_keeps_player:
  assumes "play_type p = ''greedy'' \<or> play_type p = ''heuristic''"
  shows "fst (snd (take_action B S p before s)) = p"
  using assms by (auto simp: take_action_def case_prod_beta)

lemma random_action_shuffles_opcode:
  "opcode (fst (snd (random_action B S p before s))) = fst (shuffle S (opcode p) (engine p))"
  by (simp add: random_action_def case_prod_beta)

section \<open>The tile generator of the environment\<close>

lemma positions_upt: "[0::nat, 1, 2, 3, 4, 5, 6, 7, 8, 9, 10, 11, 12, 13, 14, 15] = [0..<16]"
  by code_simp

lemma positions_set: "set [0::nat, 1, 2, 3, 4, 5, 6, 7, 8, 9, 10, 11, 12, 13, 14, 15] = {0..<16}"
  unfolding positions_upt by simp

text \<open>
  C2 as stated fails at the draws 9 and 0. With the engine in state 8 the shuffle leaves
  it in state 9, the draw is 9, and the tile placed on the first empty cell is the low
  tile 1; with the engine in state 9 the draw is 0 and the tile is the high tile 2.
\<close>

theorem rndenv_tile_counterexample:
  "uniform_int ex_S 0 9 (snd (shuffle ex_S (space (ex_rndenv [] 8)) 8)) = (9, 10)
   \<and> fst (rndenv_take_action ex_S (ex_rndenv [] 8) board_pair) = Place 2 1
   \<and> uniform_int ex_S 0 9 (snd (shuffle ex_S (space (ex_rndenv [] 9)) 9)) = (0, 11)
   \<and> fst (rndenv_take_action ex_S (ex_rndenv [] 9) board_pair) = Place 2 2"
  by (simp add: ex_S_def ex_rndenv_def rndenv_take_action_def board_pair_def board_of_def)

text \<open>
  C2 (amended): for every board with at least one empty cell, the environment's
  \<open>take_action\<close> returns a place action on the first empty cell of the shuffled
  position order; its tile is the low tile 1 exactly when the single uniform draw
  over 0..9 yields a value in 1..9, and the high tile 2 exactly when the draw yields 0.
\<close>

theorem rndenv_take_action_place:
  assumes positions: "set (space env) = {0..<16}"
    and empty: "\<exists>pos<16. after pos = 0"
    and shuffled: "shuffle S (space env) (engine env) = (space', e1)"
    and permuted: "set space' = set (space env)"
    and distribution: "popup env = (0, 9)"
    and draw: "uniform_int S 0 9 e1 = (d, e2)"
    and range: "0 \<le> d \<and> d \<le> 9"
  shows "\<exists>k tile. fst (rndenv_take_action S env after) = Place (space' ! k) tile
           \<and> k < length space' \<and> after (space' ! k) = 0 \<and> (\<forall>j<k. after (space' ! j) \<noteq> 0)
           \<and> (tile = 1 \<longleftrightarrow> 1 \<le> d \<and> d \<le> 9) \<and> (tile = 2 \<longleftrightarrow> d = 0)"
proof -
  from empty positions permuted have "\<exists>pos\<in>set space'. after pos = 0"
    by auto
  then obtain pos where found: "find (\<lambda>pos. after pos = 0) space' = Some pos"
    by (cases "find (\<lambda>pos. after pos = 0) space'") (auto simp: find_None_iff)
  then obtain k where k: "k < length space'" "after (space' ! k) = 0" "pos = space' ! k"
    "\<forall>j<k. after (space' ! j) \<noteq> 0"
    unfolding find_Some_iff by blast
  have "fst (rndenv_take_action S env after) = Place pos (if d \<noteq> 0 then 1 else 2)"
    by (simp add: rndenv_take_action_def shuffled found distribution draw)
  with k range show ?thesis
    by (intro exI [of _ k] exI [of _ "if d \<noteq> 0 then 1 else 2"]) auto
qed

theorem rndenv_take_action_place_witness:
  "fst (rndenv_take_action ex_S (ex_rndenv [] 8) board_pair) = Place 2 1"
proof -
  let ?order = "[1, 2, 3, 4, 5, 6, 7, 8, 9, 10, 11, 12, 13, 14, 15, 0::nat]"
  have positions: "set (space (ex_rndenv [] 8)) = {0..<16}"
    using positions_set by (simp add: ex_rndenv_def)
  have empty: "\<exists>pos<16. board_pair pos = 0"
    by (rule exI [of _ 2]) (simp add: board_pair_def board_of_def)
  have shuffled: "shuffle ex_S (space (ex_rndenv [] 8)) (engine (ex_rndenv [] 8)) = (?order, 9)"
    by (simp add: ex_S_def ex_rndenv_def)
  have permuted: "set ?order = set (space (ex_rndenv [] 8))"
    by (auto simp: ex_rndenv_def)
  have distribution: "popup (ex_rndenv [] 8) = (0, 9)"
    by (simp add: ex_rndenv_def)
  have draw: "uniform_int ex_S 0 9 9 = (9, 10)"
    by (simp add: ex_S_def)
  have range: "(0::int) \<le> 9 \<and> (9::int) \<le> 9" by simp
  from rndenv_take_action_place [OF positions empty shuffled permuted distribution draw range]
  obtain k tile where
    res: "fst (rndenv_take_action ex_S (ex_rndenv [] 8) board_pair) = Place (?order ! k) tile"
    and here: "board_pair (?order ! k) = 0"
    and before: "\<forall>j<k. board_pair (?order ! j) \<noteq> 0"
    and tile: "tile = 1"
    by auto
  have first: "board_pair (?order ! 0) \<noteq> 0" and second: "board_pair (?order ! 1) = 0"
    by (simp_all add: board_pair_def board_of_def)
  have "k \<noteq> 0"
  proof
    assume "k = 0"
    with here first show False by simp
  qed
  moreover have "\<not> 1 < k"
  proof
    assume "1 < k"
    with before have "board_pair (?order ! 1) \<noteq> 0" by blast
    with second show False by simp
  qed
  ultimately have "k = 1" by simp
  with res tile show ?thesis by simp
qed

section \<open>Trial slides on copies leave the live boards alone\<close>

lemma unchanged_below_refl: "unchanged_below s s"
  by (simp add: unchanged_below_def)

lemma unchanged_below_trans:
  "unchanged_below s s' \<Longrightarrow> unchanged_below s' s'' \<Longrightarrow> unchanged_below s s''"
  by (simp add: unchanged_below_def)

lemma trial_slide:
  assumes copy: "board_copy before s = (tmp, s1)"
    and slide: "slide_at B op tmp s1 = (reward, s2)"
    and live: "before < stack_top s"
  shows "tmp = stack_top s"
    and "reward = immediate_reward B (boards s before) op"
    and "boards s2 tmp = slid B (boards s before) op"
    and "stack_top s2 = Suc (stack_top s)"
    and "\<And>a. a < stack_top s \<Longrightarrow> boards s2 a = boards s a"
    and "unchanged_below s (board_destroy s2)"
  using assms
  by (auto simp: board_copy_def slide_at_def immediate_reward_def slid_def
        unchanged_below_def board_destroy_def split: prod.splits)

lemma destroy_after_call:
  assumes "stack_top s2 = Suc (stack_top s)"
    and "\<And>a. a < stack_top s \<Longrightarrow> boards s2 a = boards s a"
    and "unchanged_below s2 s3"
  shows "unchanged_below s (board_destroy s3)"
  using assms by (simp add: unchanged_below_def board_destroy_def)

lemma tree_search_unchanged:
  "game < stack_top s \<Longrightarrow> unchanged_below s (snd (tree_search B p game d s))"
proof (induction B p game d s rule: tree_search.induct)
  case (1 B p game d s)
  show ?case
  proof (cases "d \<le> 0")
    case True
    then show ?thesis
      by (subst tree_search.simps) (simp add: evaluate_board_eq unchanged_below_refl)
  next
    case False
    let ?round = "\<lambda>op (best_score, s).
             let (after, s1) = board_copy game s;
                 (reward, s2) = slide_at B op after s1;
                 (score, s3) =
                   (if reward \<noteq> -1
                    then (let (v, s') = tree_search B p after (d - 1) s2
                          in (reward + v, s'))
                    else (0, s2))
             in (max best_score (score + reward), board_destroy s3)"
    have unfold: "tree_search B p game d s = fold ?round (opcode p) (0, s)"
      using False by (subst tree_search.simps) (simp only: if_False)
    have round: "unchanged_below s (snd (?round op acc))"
      if op: "op \<in> set (opcode p)" and acc: "unchanged_below s (snd acc)" for op acc
    proof -
      obtain best xb where acc_eq: "acc = (best, xb)" by (cases acc)
      obtain after s1 where copy: "board_copy game xb = (after, s1)"
        by (cases "board_copy game xb")
      obtain reward s2 where slide: "slide_at B op after s1 = (reward, s2)"
        by (cases "slide_at B op after s1")
      from acc acc_eq have xb: "unchanged_below s xb" by simp
      with "1.prems" have live: "game < stack_top xb"
        by (simp add: unchanged_below_def)
      note t = trial_slide [OF copy slide live]
      show ?thesis
      proof (cases "reward = -1")
        case True
        then have "snd (?round op acc) = board_destroy s2"
          by (simp add: acc_eq copy slide)
        with t(6) xb show ?thesis
          by (simp add: unchanged_below_trans)
      next
        case legal: False
        have "after < stack_top s2" using t(1,4) by simp
        with "1.IH" [OF False op refl copy [symmetric] refl slide [symmetric] legal]
        have inner: "unchanged_below s2 (snd (tree_search B p after (d - 1) s2))" .
        have "snd (?round op acc) = board_destroy (snd (tree_search B p after (d - 1) s2))"
          using legal by (simp add: acc_eq copy slide case_prod_beta)
        with destroy_after_call [OF t(4) t(5) inner] xb show ?thesis
          by (simp add: unchanged_below_trans)
      qed
    qed
    have "unchanged_below s (snd (fold ?round (opcode p) (0, s)))"
    proof (rule fold_invariant [where Q = "\<lambda>op. op \<in> set (opcode p)"
            and P = "\<lambda>acc. unchanged_below s (snd acc)"])
      show "unchanged_below s (snd (0::int, s))"
        by (simp add: unchanged_below_refl)
    qed (simp, rule round)
    then show ?thesis by (simp only: unfold)
  qed
qed


lemma fold_max_lower:
  "b0 \<le> fst (fold (\<lambda>x (best, s). (max best (g x s), h x s)) xs (b0 :: int, s0))"
proof (induction xs arbitrary: b0 s0)
  case Nil
  show ?case by simp
next
  case (Cons x xs)
  have "b0 \<le> max b0 (g x s0)" by simp
  also have "\<dots> \<le> fst (fold (\<lambda>x (best, s). (max best (g x s), h x s)) xs
                        (max b0 (g x s0), h x s0))"
    by (rule Cons.IH)
  finally show ?case by simp
qed

lemma tree_search_nonneg:
  assumes "0 < d"
  shows "0 \<le> fst (tree_search B p game d s)"
proof -
  let ?g = "\<lambda>op s. (let (after, s1) = board_copy game s;
                 (reward, s2) = slide_at B op after s1;
                 (score, s3) =
                   (if reward \<noteq> -1
                    then (let (v, s') = tree_search B p after (d - 1) s2
                          in (reward + v, s'))
                    else (0, s2))
             in score + reward)"
  let ?h = "\<lambda>op s. (let (after, s1) = board_copy game s;
                 (reward, s2) = slide_at B op after s1;
                 (score, s3) =
                   (if reward \<noteq> -1
                    then (let (v, s') = tree_search B p after (d - 1) s2
                          in (reward + v, s'))
                    else (0, s2))
             in board_destroy s3)"
  have "tree_search B p game d s
        = fold (\<lambda>op (best, s). (max best (?g op s), ?h op s)) (opcode p) (0, s)"
    using assms by (subst tree_search.simps) (simp add: case_prod_beta Let_def)
  then show ?thesis
    using fold_max_lower [of 0 ?g ?h "opcode p" s] by simp
qed

lemma greedy_round_eq:
  assumes live: "before < stack_top s0" and frame: "unchanged_below s0 s"
  shows "\<exists>s'. unchanged_below s0 s' \<and>
           greedy_round B before op (m, bo, s) =
             (let reward = immediate_reward B (boards s0 before) op
              in if reward \<noteq> -1 \<and> m \<le> reward then (reward, int op, s')
                 else (m, bo, s'))"
proof -
  obtain tmp s1 where copy: "board_copy before s = (tmp, s1)"
    by (cases "board_copy before s")
  obtain reward s2 where slide: "slide_at B op tmp s1 = (reward, s2)"
    by (cases "slide_at B op tmp s1")
  from live frame have live': "before < stack_top s" and same: "boards s before = boards s0 before"
    by (simp_all add: unchanged_below_def)
  note t = trial_slide [OF copy slide live']
  have "unchanged_below s0 (board_destroy s2)"
    using frame t(6) by (rule unchanged_below_trans)
  moreover have "greedy_round B before op (m, bo, s) =
             (let reward = immediate_reward B (boards s0 before) op
              in if reward \<noteq> -1 \<and> m \<le> reward then (reward, int op, board_destroy s2)
                 else (m, bo, board_destroy s2))"
    using t(2) same by (simp add: greedy_round_def copy slide Let_def)
  ultimately show ?thesis by blast
qed

lemma heuristic_round_eq:
  assumes live: "before < stack_top s0" and frame: "unchanged_below s0 s"
  shows "\<exists>s' critic. unchanged_below s0 s' \<and> 0 \<le> critic \<and>
           heuristic_round B p before op (m, bo, s) =
             (let reward = immediate_reward B (boards s0 before) op
              in if reward \<noteq> -1 \<and> m \<le> reward + critic then (reward + critic, int op, s')
                 else (m, bo, s'))"
proof -
  obtain after s1 where copy: "board_copy before s = (after, s1)"
    by (cases "board_copy before s")
  obtain reward s2 where slide: "slide_at B op after s1 = (reward, s2)"
    by (cases "slide_at B op after s1")
  from live frame have live': "before < stack_top s" and same: "boards s before = boards s0 before"
    by (simp_all add: unchanged_below_def)
  note t = trial_slide [OF copy slide live']
  show ?thesis
  proof (cases "reward = -1")
    case True
    have "unchanged_below s0 (board_destroy s2)"
      using frame t(6) by (rule unchanged_below_trans)
    moreover have "heuristic_round B p before op (m, bo, s) =
             (let reward = immediate_reward B (boards s0 before) op
              in if reward \<noteq> -1 \<and> m \<le> reward + 0 then (reward + 0, int op, board_destroy s2)
                 else (m, bo, board_destroy s2))"
      using t(2) same True by (simp add: heuristic_round_def copy slide Let_def)
    ultimately show ?thesis by (intro exI [of _ "board_destroy s2"] exI [of _ 0]) simp
  next
    case legal: False
    obtain critic s3 where search: "tree_search B p after 1 s2 = (critic, s3)"
      by (cases "tree_search B p after 1 s2")
    have "after < stack_top s2" using t(1,4) by simp
    from tree_search_unchanged [OF this, of B p 1] search
    have inner: "unchanged_below s2 s3" by simp
    have "unchanged_below s (board_destroy s3)"
      using t(4) t(5) inner by (rule destroy_after_call)
    with frame have "unchanged_below s0 (board_destroy s3)"
      by (rule unchanged_below_trans)
    moreover have "0 \<le> critic"
      using tree_search_nonneg [of 1 B p after s2] search by simp
    moreover have "heuristic_round B p before op (m, bo, s) =
             (let reward = immediate_reward B (boards s0 before) op
              in if reward \<noteq> -1 \<and> m \<le> reward + critic
                 then (reward + critic, int op, board_destroy s3)
                 else (m, bo, board_destroy s3))"
      using t(2) same legal by (simp add: heuristic_round_def copy slide search Let_def)
    ultimately show ?thesis by blast
  qed
qed


section \<open>The greedy selector\<close>

lemma greedy_fold:
  assumes live: "before < stack_top s"
    and contract: "\<forall>op\<in>set xs. -1 \<le> immediate_reward B (boards s before) op"
  shows "\<exists>m bo s'. fold (greedy_round B before) xs (0, -1, s) = (m, bo, s')
      \<and> unchanged_below s s' \<and> 0 \<le> m
      \<and> (if \<forall>op\<in>set xs. \<not> legal B (boards s before) op then bo = -1 \<and> m = 0
          else \<exists>k<length xs. bo = int (xs ! k) \<and> legal B (boards s before) (xs ! k)
                 \<and> m = immediate_reward B (boards s before) (xs ! k)
                 \<and> (\<forall>j<length xs. legal B (boards s before) (xs ! j) \<longrightarrow>
                        immediate_reward B (boards s before) (xs ! j) \<le> m
                        \<and> (immediate_reward B (boards s before) (xs ! j) = m \<longrightarrow> j \<le> k)))"
  using contract
proof (induction xs rule: rev_induct)
  case Nil
  show ?case by (simp add: unchanged_below_refl)
next
  case (snoc x xs)
  let ?r = "immediate_reward B (boards s before)"
  let ?L = "legal B (boards s before)"
  from snoc.prems have "\<forall>op\<in>set xs. -1 \<le> ?r op" and rx: "-1 \<le> ?r x"
    by simp_all
  from snoc.IH [OF this(1)] obtain m bo s' where
    run: "fold (greedy_round B before) xs (0, -1, s) = (m, bo, s')"
    and frame: "unchanged_below s s'" and m0: "0 \<le> m"
    and inv: "if \<forall>op\<in>set xs. \<not> ?L op then bo = -1 \<and> m = 0
          else \<exists>k<length xs. bo = int (xs ! k) \<and> ?L (xs ! k) \<and> m = ?r (xs ! k)
                 \<and> (\<forall>j<length xs. ?L (xs ! j) \<longrightarrow>
                        ?r (xs ! j) \<le> m \<and> (?r (xs ! j) = m \<longrightarrow> j \<le> k))"
    by blast
  from greedy_round_eq [OF live frame, of B x m bo] obtain s'' where
    frame': "unchanged_below s s''"
    and step: "greedy_round B before x (m, bo, s')
               = (if ?r x \<noteq> -1 \<and> m \<le> ?r x then (?r x, int x, s'') else (m, bo, s''))"
    by (auto simp: Let_def)
  have run': "fold (greedy_round B before) (xs @ [x]) (0, -1, s)
              = (if ?r x \<noteq> -1 \<and> m \<le> ?r x then (?r x, int x, s'') else (m, bo, s''))"
    by (simp add: run step)
  show ?case
  proof (cases "?r x \<noteq> -1 \<and> m \<le> ?r x")
    case True
    then have Lx: "?L x" by (simp add: legal_def)
    have prev: "?r (xs ! j) \<le> ?r x" if j: "j < length xs" and Lj: "?L (xs ! j)" for j
    proof -
      from j Lj have "\<not> (\<forall>op\<in>set xs. \<not> ?L op)"
        using nth_mem by blast
      with inv have "\<forall>j<length xs. ?L (xs ! j) \<longrightarrow> ?r (xs ! j) \<le> m"
        by auto
      with j Lj have "?r (xs ! j) \<le> m" by blast
      with True show ?thesis by simp
    qed
    have "\<exists>k<length (xs @ [x]). int x = int ((xs @ [x]) ! k) \<and> ?L ((xs @ [x]) ! k)
            \<and> ?r x = ?r ((xs @ [x]) ! k)
            \<and> (\<forall>j<length (xs @ [x]). ?L ((xs @ [x]) ! j) \<longrightarrow>
                   ?r ((xs @ [x]) ! j) \<le> ?r x \<and> (?r ((xs @ [x]) ! j) = ?r x \<longrightarrow> j \<le> k))"
      using Lx prev by (intro exI [of _ "length xs"]) (auto simp: nth_append)
    moreover have "\<not> (\<forall>op\<in>set (xs @ [x]). \<not> ?L op)" using Lx by simp
    moreover have "0 \<le> ?r x" using True m0 by simp
    moreover have "fold (greedy_round B before) (xs @ [x]) (0, -1, s) = (?r x, int x, s'')"
      unfolding run' using True by simp
    ultimately show ?thesis
      using frame' by auto
  next
    case False
    show ?thesis
    proof (cases "?L x")
      case illegal: False
      have "if \<forall>op\<in>set (xs @ [x]). \<not> ?L op then bo = -1 \<and> m = 0
          else \<exists>k<length (xs @ [x]). bo = int ((xs @ [x]) ! k) \<and> ?L ((xs @ [x]) ! k)
                 \<and> m = ?r ((xs @ [x]) ! k)
                 \<and> (\<forall>j<length (xs @ [x]). ?L ((xs @ [x]) ! j) \<longrightarrow>
                        ?r ((xs @ [x]) ! j) \<le> m \<and> (?r ((xs @ [x]) ! j) = m \<longrightarrow> j \<le> k))"
      proof (cases "\<forall>op\<in>set xs. \<not> ?L op")
        case True
        with inv illegal show ?thesis by simp
      next
        case some: False
        with inv obtain k where k: "k < length xs" "bo = int (xs ! k)" "?L (xs ! k)"
          "m = ?r (xs ! k)"
          "\<forall>j<length xs. ?L (xs ! j) \<longrightarrow> ?r (xs ! j) \<le> m \<and> (?r (xs ! j) = m \<longrightarrow> j \<le> k)"
          by auto
        have "\<exists>k<length (xs @ [x]). bo = int ((xs @ [x]) ! k) \<and> ?L ((xs @ [x]) ! k)
                 \<and> m = ?r ((xs @ [x]) ! k)
                 \<and> (\<forall>j<length (xs @ [x]). ?L ((xs @ [x]) ! j) \<longrightarrow>
                        ?r ((xs @ [x]) ! j) \<le> m \<and> (?r ((xs @ [x]) ! j) = m \<longrightarrow> j \<le> k))"
          using k illegal by (intro exI [of _ k]) (auto simp: nth_append)
        with some show ?thesis by auto
      qed
      moreover have "fold (greedy_round B before) (xs @ [x]) (0, -1, s) = (m, bo, s'')"
        unfolding run' using False by auto
      ultimately show ?thesis
        using frame' m0 by auto
    next
      case Lx: True
      with False rx have less: "?r x < m" and nonneg: "0 \<le> ?r x"
        by (auto simp: legal_def)
      have some: "\<not> (\<forall>op\<in>set xs. \<not> ?L op)"
      proof
        assume "\<forall>op\<in>set xs. \<not> ?L op"
        with inv have "m = 0" by simp
        with less nonneg show False by simp
      qed
      with inv obtain k where k: "k < length xs" "bo = int (xs ! k)" "?L (xs ! k)"
          "m = ?r (xs ! k)"
          "\<forall>j<length xs. ?L (xs ! j) \<longrightarrow> ?r (xs ! j) \<le> m \<and> (?r (xs ! j) = m \<longrightarrow> j \<le> k)"
        by auto
      have "\<exists>k<length (xs @ [x]). bo = int ((xs @ [x]) ! k) \<and> ?L ((xs @ [x]) ! k)
                 \<and> m = ?r ((xs @ [x]) ! k)
                 \<and> (\<forall>j<length (xs @ [x]). ?L ((xs @ [x]) ! j) \<longrightarrow>
                        ?r ((xs @ [x]) ! j) \<le> m \<and> (?r ((xs @ [x]) ! j) = m \<longrightarrow> j \<le> k))"
        using k less by (intro exI [of _ k]) (auto simp: nth_append)
      moreover have "\<not> (\<forall>op\<in>set (xs @ [x]). \<not> ?L op)" using Lx by simp
      moreover have "fold (greedy_round B before) (xs @ [x]) (0, -1, s) = (m, bo, s'')"
        unfolding run' using False by auto
      ultimately show ?thesis
        using frame' m0 by auto
    qed
  qed
qed


lemma directions_upt: "[0, 1, 2, 3] = [0..<4]"
  by code_simp

lemma greedy_action_fst:
  "fold (greedy_round B before) (opcode p) (0, -1, s) = (m, bo, s') \<Longrightarrow>
   fst (greedy_action B p before s) = (if bo \<noteq> -1 then Slide (nat bo) else NoAction)"
  by (simp add: greedy_action_def)

lemma board_pair_rewards:
  "immediate_reward ex_B board_pair 0 = -1" "immediate_reward ex_B board_pair 1 = 2"
  "immediate_reward ex_B board_pair 2 = 0" "immediate_reward ex_B board_pair 3 = 2"
  by code_simp+

lemma below_4: "op < 4 \<longleftrightarrow> op = 0 \<or> op = 1 \<or> op = 2 \<or> op = (3::nat)"
  by auto

text \<open>
  C3 as stated fails for a player whose \<open>opcode\<close> array has been shuffled. After two
  calls of \<open>random_action\<close> the array is 2, 3, 0, 1; on the board with the tiles 1, 1 at
  the left of the top row the directions 1 and 3 are both legal with the maximal
  reward 2, and the greedy selector returns direction 1, the last of them in the order
  of the array, not direction 3.
\<close>

theorem greedy_action_order_counterexample:
  "opcode ex_player_shuffled = [2, 3, 0, 1]
   \<and> fst (greedy_action ex_B ex_player_shuffled 0 (single_board board_pair)) = Slide 1
   \<and> legal ex_B board_pair 1 \<and> legal ex_B board_pair 3
   \<and> immediate_reward ex_B board_pair 1 = 2 \<and> immediate_reward ex_B board_pair 3 = 2"
  by code_simp

text \<open>
  C3 (amended): for every board whose slide rewards are \<open>-1\<close> or more and every player
  whose \<open>opcode\<close> array holds the directions 0..3 in any order, the greedy selector
  returns the null action iff no direction is legal; otherwise it returns a slide whose
  direction is legal, whose immediate reward is the maximum over the legal directions,
  and which is the last direction with that reward in the current order of the
  \<open>opcode\<close> array. For the order 0, 1, 2, 3 of a constructed player, which only
  \<open>random_action\<close> changes, this is the greatest legal direction of maximal reward.
\<close>

theorem greedy_action_max_reward:
  assumes directions: "set (opcode p) = {0, 1, 2, 3}"
    and live: "before < stack_top s"
    and contract: "\<forall>op<4. -1 \<le> immediate_reward B (boards s before) op"
  shows "(fst (greedy_action B p before s) = NoAction
            \<longleftrightarrow> (\<forall>op<4. \<not> legal B (boards s before) op))
    \<and> ((\<exists>op<4. legal B (boards s before) op) \<longrightarrow>
          (\<exists>k<length (opcode p).
             fst (greedy_action B p before s) = Slide (opcode p ! k)
             \<and> opcode p ! k < 4
             \<and> legal B (boards s before) (opcode p ! k)
             \<and> (\<forall>op<4. legal B (boards s before) op \<longrightarrow>
                    immediate_reward B (boards s before) op
                      \<le> immediate_reward B (boards s before) (opcode p ! k))
             \<and> immediate_reward B (boards s before) (opcode p ! k)
                 = Max {immediate_reward B (boards s before) op |op.
                          op < 4 \<and> legal B (boards s before) op}
             \<and> (\<forall>j<length (opcode p). legal B (boards s before) (opcode p ! j)
                    \<and> immediate_reward B (boards s before) (opcode p ! j)
                        = immediate_reward B (boards s before) (opcode p ! k) \<longrightarrow> j \<le> k)))
    \<and> (opcode p = [0, 1, 2, 3] \<and> (\<exists>op<4. legal B (boards s before) op) \<longrightarrow>
          (\<exists>best<4. fst (greedy_action B p before s) = Slide best
             \<and> legal B (boards s before) best
             \<and> (\<forall>op<4. legal B (boards s before) op \<longrightarrow>
                    immediate_reward B (boards s before) op
                      \<le> immediate_reward B (boards s before) best)
             \<and> immediate_reward B (boards s before) best
                 = Max {immediate_reward B (boards s before) op |op.
                          op < 4 \<and> legal B (boards s before) op}
             \<and> (\<forall>op<4. legal B (boards s before) op
                    \<and> immediate_reward B (boards s before) op
                        = immediate_reward B (boards s before) best \<longrightarrow> op \<le> best)))"
proof -
  let ?r = "immediate_reward B (boards s before)"
  let ?L = "legal B (boards s before)"
  let ?ops = "opcode p"
  have dir: "op \<in> set ?ops \<longleftrightarrow> op < 4" for op
    unfolding directions by auto
  from contract have contract': "\<forall>op\<in>set ?ops. -1 \<le> ?r op"
    by (simp add: dir)
  from greedy_fold [OF live contract'] obtain m bo s' where
    run: "fold (greedy_round B before) ?ops (0, -1, s) = (m, bo, s')"
    and inv: "if \<forall>op\<in>set ?ops. \<not> ?L op then bo = -1 \<and> m = 0
          else \<exists>k<length ?ops. bo = int (?ops ! k) \<and> ?L (?ops ! k) \<and> m = ?r (?ops ! k)
                 \<and> (\<forall>j<length ?ops. ?L (?ops ! j) \<longrightarrow>
                        ?r (?ops ! j) \<le> m \<and> (?r (?ops ! j) = m \<longrightarrow> j \<le> k))"
    by blast
  note res = greedy_action_fst [OF run]
  have general: "\<exists>k<length ?ops.
             fst (greedy_action B p before s) = Slide (?ops ! k)
             \<and> ?ops ! k < 4 \<and> ?L (?ops ! k)
             \<and> (\<forall>op<4. ?L op \<longrightarrow> ?r op \<le> ?r (?ops ! k))
             \<and> ?r (?ops ! k) = Max {?r op |op. op < 4 \<and> ?L op}
             \<and> (\<forall>j<length ?ops. ?L (?ops ! j) \<and> ?r (?ops ! j) = ?r (?ops ! k) \<longrightarrow> j \<le> k)"
    if some4: "\<exists>op<4. ?L op"
  proof -
    from some4 have some: "\<not> (\<forall>op\<in>set ?ops. \<not> ?L op)"
      using dir by blast
    from inv obtain k where k: "k < length ?ops" "bo = int (?ops ! k)" "?L (?ops ! k)"
        "m = ?r (?ops ! k)"
      and best0: "\<forall>j<length ?ops. ?L (?ops ! j) \<longrightarrow>
                        ?r (?ops ! j) \<le> m \<and> (?r (?ops ! j) = m \<longrightarrow> j \<le> k)"
      unfolding if_not_P [OF some] by blast
    have in4: "?ops ! k < 4"
      using k(1) dir nth_mem by blast
    have slide: "fst (greedy_action B p before s) = Slide (?ops ! k)"
      using res k(2) by simp
    have le: "?r op \<le> ?r (?ops ! k)" if "op < 4" "?L op" for op
    proof -
      from that(1) have "op \<in> set ?ops" by (simp add: dir)
      then obtain j where "j < length ?ops" "?ops ! j = op"
        by (auto simp: in_set_conv_nth)
      with best0 that(2) k(4) show ?thesis by auto
    qed
    have "Max {?r op |op. op < 4 \<and> ?L op} = ?r (?ops ! k)"
    proof (rule Max_eqI)
      show "finite {?r op |op. op < 4 \<and> ?L op}" by simp
      show "?r (?ops ! k) \<in> {?r op |op. op < 4 \<and> ?L op}" using k(3) in4 by blast
      show "y \<le> ?r (?ops ! k)" if "y \<in> {?r op |op. op < 4 \<and> ?L op}" for y
        using that le by blast
    qed
    moreover have "\<forall>j<length ?ops. ?L (?ops ! j) \<and> ?r (?ops ! j) = ?r (?ops ! k) \<longrightarrow> j \<le> k"
      using best0 k(4) by auto
    ultimately show ?thesis
      using k(1) slide in4 k(3) le by (intro exI [of _ k]) auto
  qed
  have null: "fst (greedy_action B p before s) = NoAction \<longleftrightarrow> (\<forall>op<4. \<not> ?L op)"
  proof (cases "\<forall>op<4. \<not> ?L op")
    case True
    then have "\<forall>op\<in>set ?ops. \<not> ?L op" using dir by blast
    with inv have "bo = -1" by simp
    with True res show ?thesis by simp
  next
    case False
    then have "\<exists>op<4. ?L op" by simp
    from general [OF this] False show ?thesis by auto
  qed
  have constructed: "\<exists>best<4. fst (greedy_action B p before s) = Slide best
             \<and> ?L best
             \<and> (\<forall>op<4. ?L op \<longrightarrow> ?r op \<le> ?r best)
             \<and> ?r best = Max {?r op |op. op < 4 \<and> ?L op}
             \<and> (\<forall>op<4. ?L op \<and> ?r op = ?r best \<longrightarrow> op \<le> best)"
    if order: "?ops = [0, 1, 2, 3]" and some4: "\<exists>op<4. ?L op"
  proof -
    have ops: "?ops = [0..<4]" using order directions_upt by simp
    have len: "length ?ops = 4" by (simp add: ops)
    have nth: "?ops ! j = j" if "j < 4" for j
      using that by (simp add: ops)
    from general [OF some4] obtain k where k: "k < length ?ops"
      and g: "fst (greedy_action B p before s) = Slide (?ops ! k)" "?L (?ops ! k)"
        "\<forall>op<4. ?L op \<longrightarrow> ?r op \<le> ?r (?ops ! k)"
        "?r (?ops ! k) = Max {?r op |op. op < 4 \<and> ?L op}"
      and last: "\<forall>j<length ?ops. ?L (?ops ! j) \<and> ?r (?ops ! j) = ?r (?ops ! k) \<longrightarrow> j \<le> k"
      by blast
    from k have k4: "k < 4" by (simp add: len)
    have "\<forall>op<4. ?L op \<and> ?r op = ?r k \<longrightarrow> op \<le> k"
    proof (intro allI impI)
      fix op :: nat
      assume "op < 4" and "?L op \<and> ?r op = ?r k"
      with last [rule_format, of op] show "op \<le> k"
        by (simp add: len nth k4)
    qed
    with g k4 show ?thesis
      by (intro exI [of _ k]) (simp add: nth)
  qed
  from null general constructed show ?thesis by blast
qed

theorem greedy_action_max_reward_witness:
  "fst (greedy_action ex_B (ex_player ''greedy'') 0 (single_board board_pair)) = Slide 3"
proof -
  let ?s = "single_board board_pair"
  have b: "boards ?s 0 = board_pair" by (simp add: single_board_def)
  have order: "opcode (ex_player ''greedy'') = [0, 1, 2, 3]" by (simp add: ex_player_def)
  have directions: "set (opcode (ex_player ''greedy'')) = {0, 1, 2, 3}"
    by (simp add: ex_player_def)
  have live: "0 < stack_top ?s" by (simp add: single_board_def)
  have contract: "\<forall>op<4. -1 \<le> immediate_reward ex_B (boards ?s 0) op"
    unfolding b below_4 using board_pair_rewards by auto
  have L3: "legal ex_B board_pair 3" by (simp add: legal_def board_pair_rewards)
  have some: "\<exists>op<4. legal ex_B board_pair op"
    using L3 by (intro exI [of _ 3]) simp
  from greedy_action_max_reward [OF directions live contract]
  have "opcode (ex_player ''greedy'') = [0, 1, 2, 3] \<and> (\<exists>op<4. legal ex_B board_pair op) \<longrightarrow>
          (\<exists>best<4. fst (greedy_action ex_B (ex_player ''greedy'') 0 ?s) = Slide best
             \<and> legal ex_B board_pair best
             \<and> (\<forall>op<4. legal ex_B board_pair op \<longrightarrow>
                    immediate_reward ex_B board_pair op \<le> immediate_reward ex_B board_pair best)
             \<and> immediate_reward ex_B board_pair best
                 = Max {immediate_reward ex_B board_pair op |op.
                          op < 4 \<and> legal ex_B board_pair op}
             \<and> (\<forall>op<4. legal ex_B board_pair op
                    \<and> immediate_reward ex_B board_pair op
                        = immediate_reward ex_B board_pair best \<longrightarrow> op \<le> best))"
    unfolding b by (elim conjE)
  with order some obtain best where
    best: "best < 4" "fst (greedy_action ex_B (ex_player ''greedy'') 0 ?s) = Slide best"
      "\<forall>op<4. legal ex_B board_pair op \<longrightarrow>
          immediate_reward ex_B board_pair op \<le> immediate_reward ex_B board_pair best"
      "\<forall>op<4. legal ex_B board_pair op
          \<and> immediate_reward ex_B board_pair op = immediate_reward ex_B board_pair best
          \<longrightarrow> op \<le> best"
    by blast
  from best(3) [rule_format, of 3] L3 have "2 \<le> immediate_reward ex_B board_pair best"
    using board_pair_rewards(4) by simp
  with best(1) have "immediate_reward ex_B board_pair best = 2"
    unfolding below_4 using board_pair_rewards by auto
  with best(4) [rule_format, of 3] L3 have "3 \<le> best"
    using board_pair_rewards(4) by simp
  with best(1) have "best = 3" by simp
  with best(2) show ?thesis by simp
qed

section \<open>The heuristic and the random selector\<close>

lemma heuristic_fold:
  assumes live: "before < stack_top s"
    and contract: "\<forall>op\<in>set xs. -1 \<le> immediate_reward B (boards s before) op"
  shows "\<exists>m bo s'. fold (heuristic_round B p before) xs (0, -1, s) = (m, bo, s')
      \<and> unchanged_below s s' \<and> 0 \<le> m
      \<and> (if \<forall>op\<in>set xs. \<not> legal B (boards s before) op then bo = -1 \<and> m = 0
          else \<exists>op\<in>set xs. bo = int op \<and> legal B (boards s before) op)"
  using contract
proof (induction xs rule: rev_induct)
  case Nil
  show ?case by (simp add: unchanged_below_refl)
next
  case (snoc x xs)
  let ?r = "immediate_reward B (boards s before)"
  let ?L = "legal B (boards s before)"
  from snoc.prems have "\<forall>op\<in>set xs. -1 \<le> ?r op" and rx: "-1 \<le> ?r x"
    by simp_all
  from snoc.IH [OF this(1)] obtain m bo s' where
    run: "fold (heuristic_round B p before) xs (0, -1, s) = (m, bo, s')"
    and frame: "unchanged_below s s'" and m0: "0 \<le> m"
    and inv: "if \<forall>op\<in>set xs. \<not> ?L op then bo = -1 \<and> m = 0
          else \<exists>op\<in>set xs. bo = int op \<and> ?L op"
    by blast
  from heuristic_round_eq [OF live frame, of B p x m bo] obtain s'' critic where
    frame': "unchanged_below s s''" and critic: "0 \<le> critic"
    and step: "heuristic_round B p before x (m, bo, s')
               = (if ?r x \<noteq> -1 \<and> m \<le> ?r x + critic then (?r x + critic, int x, s'')
                  else (m, bo, s''))"
    by (auto simp: Let_def)
  have run': "fold (heuristic_round B p before) (xs @ [x]) (0, -1, s)
              = (if ?r x \<noteq> -1 \<and> m \<le> ?r x + critic then (?r x + critic, int x, s'')
                 else (m, bo, s''))"
    by (simp add: run step)
  show ?case
  proof (cases "?r x \<noteq> -1 \<and> m \<le> ?r x + critic")
    case True
    then have "?L x" by (simp add: legal_def)
    moreover have "0 \<le> ?r x + critic" using True m0 by simp
    moreover have "fold (heuristic_round B p before) (xs @ [x]) (0, -1, s)
                   = (?r x + critic, int x, s'')"
      unfolding run' using True by simp
    ultimately show ?thesis
      using frame' by auto
  next
    case False
    have "if \<forall>op\<in>set (xs @ [x]). \<not> ?L op then bo = -1 \<and> m = 0
          else \<exists>op\<in>set (xs @ [x]). bo = int op \<and> ?L op"
    proof (cases "?L x")
      case False
      with inv show ?thesis by auto
    next
      case True
      with False rx critic have less: "?r x + critic < m" and "0 \<le> ?r x + critic"
        by (auto simp: legal_def)
      then have "m \<noteq> 0" by simp
      with inv have "\<exists>op\<in>set xs. bo = int op \<and> ?L op"
        by (auto split: if_splits)
      with True show ?thesis by auto
    qed
    moreover have "fold (heuristic_round B p before) (xs @ [x]) (0, -1, s) = (m, bo, s'')"
      unfolding run' using False by auto
    ultimately show ?thesis
      using frame' m0 by auto
  qed
qed

lemma heuristic_action_fst:
  "fold (heuristic_round B p before) (opcode p) (0, -1, s) = (m, bo, s') \<Longrightarrow>
   fst (heuristic_action B p before s) = (if bo \<noteq> -1 then Slide (nat bo) else NoAction)"
  by (simp add: heuristic_action_def)

lemma random_loop_eq:
  assumes live: "before < stack_top s0" and frame: "unchanged_below s0 s"
  shows "\<exists>s'. unchanged_below s0 s' \<and>
           random_loop B ops before s =
             (case find (legal B (boards s0 before)) ops of
                None \<Rightarrow> NoAction | Some op \<Rightarrow> Slide op, s')"
  using frame
proof (induction ops arbitrary: s)
  case Nil
  then show ?case by simp
next
  case (Cons op ops)
  obtain tmp s1 where copy: "board_copy before s = (tmp, s1)"
    by (cases "board_copy before s")
  obtain reward s2 where slide: "slide_at B op tmp s1 = (reward, s2)"
    by (cases "slide_at B op tmp s1")
  from live Cons.prems have live': "before < stack_top s"
    and same: "boards s before = boards s0 before"
    by (simp_all add: unchanged_below_def)
  note t = trial_slide [OF copy slide live']
  have next_frame: "unchanged_below s0 (board_destroy s2)"
    using Cons.prems t(6) by (rule unchanged_below_trans)
  show ?case
  proof (cases "reward = -1")
    case True
    then have "random_loop B (op # ops) before s = random_loop B ops before (board_destroy s2)"
      by (simp add: copy slide)
    moreover have "\<not> legal B (boards s0 before) op"
      using True t(2) same by (simp add: legal_def)
    ultimately show ?thesis
      using Cons.IH [OF next_frame] by simp
  next
    case False
    then have "random_loop B (op # ops) before s = (Slide op, board_destroy s2)"
      by (simp add: copy slide)
    moreover have "legal B (boards s0 before) op"
      using False t(2) same by (simp add: legal_def)
    ultimately show ?thesis
      using next_frame by auto
  qed
qed


lemma random_action_legal:
  assumes live: "before < stack_top s"
    and permuted: "set (fst (shuffle S (opcode p) (engine p))) = set (opcode p)"
  shows "if \<exists>op\<in>set (opcode p). legal B (boards s before) op
         then \<exists>op\<in>set (opcode p). fst (random_action B S p before s) = Slide op
                \<and> legal B (boards s before) op
         else fst (random_action B S p before s) = NoAction"
proof -
  obtain ops e where sh: "shuffle S (opcode p) (engine p) = (ops, e)"
    by (cases "shuffle S (opcode p) (engine p)")
  with permuted have ops: "set ops = set (opcode p)" by simp
  from random_loop_eq [OF live unchanged_below_refl, of B ops] obtain s' where
    "random_loop B ops before s =
       (case find (legal B (boards s before)) ops of None \<Rightarrow> NoAction | Some op \<Rightarrow> Slide op, s')"
    by blast
  then have res: "fst (random_action B S p before s) =
       (case find (legal B (boards s before)) ops of None \<Rightarrow> NoAction | Some op \<Rightarrow> Slide op)"
    by (simp add: random_action_def sh)
  show ?thesis
  proof (cases "find (legal B (boards s before)) ops")
    case None
    then have "\<not> (\<exists>op\<in>set (opcode p). legal B (boards s before) op)"
      using ops by (auto simp: find_None_iff)
    with None res show ?thesis by simp
  next
    case (Some op)
    then have "op \<in> set (opcode p)" "legal B (boards s before) op"
      using ops by (auto simp: find_Some_iff)
    with Some res show ?thesis by auto
  qed
qed

lemma greedy_action_legal:
  assumes live: "before < stack_top s"
    and contract: "\<forall>op\<in>set (opcode p). -1 \<le> immediate_reward B (boards s before) op"
  shows "if \<exists>op\<in>set (opcode p). legal B (boards s before) op
         then \<exists>op\<in>set (opcode p). fst (greedy_action B p before s) = Slide op
                \<and> legal B (boards s before) op
         else fst (greedy_action B p before s) = NoAction"
proof -
  from greedy_fold [OF live contract] obtain m bo s' where
    run: "fold (greedy_round B before) (opcode p) (0, -1, s) = (m, bo, s')"
    and inv: "if \<forall>op\<in>set (opcode p). \<not> legal B (boards s before) op then bo = -1 \<and> m = 0
          else \<exists>k<length (opcode p). bo = int (opcode p ! k)
                 \<and> legal B (boards s before) (opcode p ! k)
                 \<and> m = immediate_reward B (boards s before) (opcode p ! k)
                 \<and> (\<forall>j<length (opcode p). legal B (boards s before) (opcode p ! j) \<longrightarrow>
                        immediate_reward B (boards s before) (opcode p ! j) \<le> m
                        \<and> (immediate_reward B (boards s before) (opcode p ! j) = m \<longrightarrow> j \<le> k))"
    by blast
  note res = greedy_action_fst [OF run]
  show ?thesis
  proof (cases "\<exists>op\<in>set (opcode p). legal B (boards s before) op")
    case False
    with inv res show ?thesis by auto
  next
    case True
    then have some: "\<not> (\<forall>op\<in>set (opcode p). \<not> legal B (boards s before) op)"
      by blast
    from inv obtain k where "k < length (opcode p)" "bo = int (opcode p ! k)"
      "legal B (boards s before) (opcode p ! k)"
      unfolding if_not_P [OF some] by blast
    with True res show ?thesis by (auto intro!: bexI [of _ "opcode p ! k"])
  qed
qed

lemma heuristic_action_legal:
  assumes live: "before < stack_top s"
    and contract: "\<forall>op\<in>set (opcode p). -1 \<le> immediate_reward B (boards s before) op"
  shows "if \<exists>op\<in>set (opcode p). legal B (boards s before) op
         then \<exists>op\<in>set (opcode p). fst (heuristic_action B p before s) = Slide op
                \<and> legal B (boards s before) op
         else fst (heuristic_action B p before s) = NoAction"
proof -
  from heuristic_fold [OF live contract] obtain m bo s' where
    run: "fold (heuristic_round B p before) (opcode p) (0, -1, s) = (m, bo, s')"
    and inv: "if \<forall>op\<in>set (opcode p). \<not> legal B (boards s before) op then bo = -1 \<and> m = 0
          else \<exists>op\<in>set (opcode p). bo = int op \<and> legal B (boards s before) op"
    by blast
  note res = heuristic_action_fst [OF run]
  show ?thesis
  proof (cases "\<exists>op\<in>set (opcode p). legal B (boards s before) op")
    case False
    with inv res show ?thesis by auto
  next
    case True
    then have some: "\<not> (\<forall>op\<in>set (opcode p). \<not> legal B (boards s before) op)"
      by blast
    from inv obtain op where "op \<in> set (opcode p)" "bo = int op" "legal B (boards s before) op"
      unfolding if_not_P [OF some] by blast
    with True res show ?thesis by auto
  qed
qed

text \<open>
  C4: for every board on which the slide rewards are \<open>-1\<close> or more, with the four
  directions in the player's opcode array and a shuffle that permutes them: when at
  least one direction is legal, each of the random, greedy and heuristic selectors
  returns a slide whose direction is legal; when no direction is legal, each of the
  three returns the null action.
\<close>

theorem selectors_return_legal:
  assumes directions: "set (opcode p) = {0, 1, 2, 3}"
    and live: "before < stack_top s"
    and contract: "\<forall>op<4. -1 \<le> immediate_reward B (boards s before) op"
    and permuted: "set (fst (shuffle S (opcode p) (engine p))) = set (opcode p)"
  shows "((\<exists>op<4. legal B (boards s before) op) \<longrightarrow>
            (\<exists>op<4. fst (random_action B S p before s) = Slide op
                     \<and> legal B (boards s before) op)
          \<and> (\<exists>op<4. fst (greedy_action B p before s) = Slide op
                     \<and> legal B (boards s before) op)
          \<and> (\<exists>op<4. fst (heuristic_action B p before s) = Slide op
                     \<and> legal B (boards s before) op))
       \<and> ((\<forall>op<4. \<not> legal B (boards s before) op) \<longrightarrow>
            fst (random_action B S p before s) = NoAction
          \<and> fst (greedy_action B p before s) = NoAction
          \<and> fst (heuristic_action B p before s) = NoAction)"
proof -
  have dir: "op \<in> set (opcode p) \<longleftrightarrow> op < 4" for op
    unfolding directions by auto
  from contract have contract': "\<forall>op\<in>set (opcode p). -1 \<le> immediate_reward B (boards s before) op"
    by (simp add: dir)
  note r = random_action_legal [OF live permuted, of B, unfolded bex_simps dir]
  note g = greedy_action_legal [OF live contract', unfolded dir]
  note h = heuristic_action_legal [OF live contract', unfolded dir]
  show ?thesis
  proof (cases "\<exists>op<4. legal B (boards s before) op")
    case True
    with r g h show ?thesis by (auto simp: dir Bex_def)
  next
    case False
    with r g h show ?thesis by (auto simp: dir Bex_def)
  qed
qed


lemma board_stuck_rewards:
  "immediate_reward ex_B board_stuck 0 = -1" "immediate_reward ex_B board_stuck 1 = -1"
  "immediate_reward ex_B board_stuck 2 = -1" "immediate_reward ex_B board_stuck 3 = -1"
  by code_simp+

theorem selectors_return_legal_witness:
  "(\<exists>op<4. fst (random_action ex_B ex_S (ex_player []) 0 (single_board board_pair)) = Slide op
            \<and> legal ex_B board_pair op)
   \<and> (\<exists>op<4. fst (greedy_action ex_B (ex_player []) 0 (single_board board_pair)) = Slide op
            \<and> legal ex_B board_pair op)
   \<and> (\<exists>op<4. fst (heuristic_action ex_B (ex_player []) 0 (single_board board_pair)) = Slide op
            \<and> legal ex_B board_pair op)
   \<and> fst (random_action ex_B ex_S (ex_player []) 0 (single_board board_stuck)) = NoAction
   \<and> fst (greedy_action ex_B (ex_player []) 0 (single_board board_stuck)) = NoAction
   \<and> fst (heuristic_action ex_B (ex_player []) 0 (single_board board_stuck)) = NoAction"
proof -
  have directions: "set (opcode (ex_player [])) = {0, 1, 2, 3}"
    by (simp add: ex_player_def)
  have permuted: "set (fst (shuffle ex_S (opcode (ex_player [])) (engine (ex_player []))))
                  = set (opcode (ex_player []))"
    by (auto simp: ex_S_def ex_player_def)
  have live: "0 < stack_top (single_board b)" for b
    by (simp add: single_board_def)
  have b: "boards (single_board b) 0 = b" for b
    by (simp add: single_board_def)
  have pair: "\<forall>op<4. -1 \<le> immediate_reward ex_B (boards (single_board board_pair) 0) op"
    unfolding b below_4 using board_pair_rewards by auto
  have stuck: "\<forall>op<4. -1 \<le> immediate_reward ex_B (boards (single_board board_stuck) 0) op"
    unfolding b below_4 using board_stuck_rewards by auto
  have some: "\<exists>op<4. legal ex_B board_pair op"
    by (intro exI [of _ 3]) (simp add: legal_def board_pair_rewards)
  have none: "\<forall>op<4. \<not> legal ex_B board_stuck op"
    unfolding below_4 using board_stuck_rewards by (auto simp: legal_def)
  from selectors_return_legal [OF directions live pair permuted, unfolded b] some
  have "(\<exists>op<4. fst (random_action ex_B ex_S (ex_player []) 0 (single_board board_pair)) = Slide op
            \<and> legal ex_B board_pair op)
   \<and> (\<exists>op<4. fst (greedy_action ex_B (ex_player []) 0 (single_board board_pair)) = Slide op
            \<and> legal ex_B board_pair op)
   \<and> (\<exists>op<4. fst (heuristic_action ex_B (ex_player []) 0 (single_board board_pair)) = Slide op
            \<and> legal ex_B board_pair op)"
    by blast
  moreover from selectors_return_legal [OF directions live stuck permuted, unfolded b] none
  have "fst (random_action ex_B ex_S (ex_player []) 0 (single_board board_stuck)) = NoAction
   \<and> fst (greedy_action ex_B (ex_player []) 0 (single_board board_stuck)) = NoAction
   \<and> fst (heuristic_action ex_B (ex_player []) 0 (single_board board_stuck)) = NoAction"
    by blast
  ultimately show ?thesis by blast
qed

section \<open>The caller's board\<close>

lemma greedy_action_unchanged:
  assumes live: "before < stack_top s"
  shows "unchanged_below s (snd (greedy_action B p before s))"
proof -
  have "unchanged_below s (snd (snd (fold (greedy_round B before) (opcode p) (0, -1, s))))"
  proof (rule fold_invariant [where Q = "\<lambda>op. True"
            and P = "\<lambda>acc. unchanged_below s (snd (snd acc))"])
    show "unchanged_below s (snd (snd (0::int, -1::int, s)))"
      by (simp add: unchanged_below_refl)
    show "unchanged_below s (snd (snd (greedy_round B before op acc)))"
      if "unchanged_below s (snd (snd acc))" for op acc
    proof -
      obtain m bo s1 where acc: "acc = (m, bo, s1)" by (cases acc)
      with that have "unchanged_below s s1" by simp
      from greedy_round_eq [OF live this, of B op m bo] show ?thesis
        by (auto simp: acc Let_def split: if_splits)
    qed
  qed simp
  then show ?thesis
    by (simp add: greedy_action_def case_prod_beta)
qed

lemma heuristic_action_unchanged:
  assumes live: "before < stack_top s"
  shows "unchanged_below s (snd (heuristic_action B p before s))"
proof -
  have "unchanged_below s (snd (snd (fold (heuristic_round B p before) (opcode p) (0, -1, s))))"
  proof (rule fold_invariant [where Q = "\<lambda>op. True"
            and P = "\<lambda>acc. unchanged_below s (snd (snd acc))"])
    show "unchanged_below s (snd (snd (0::int, -1::int, s)))"
      by (simp add: unchanged_below_refl)
    show "unchanged_below s (snd (snd (heuristic_round B p before op acc)))"
      if "unchanged_below s (snd (snd acc))" for op acc
    proof -
      obtain m bo s1 where acc: "acc = (m, bo, s1)" by (cases acc)
      with that have "unchanged_below s s1" by simp
      from heuristic_round_eq [OF live this, of B p op m bo] show ?thesis
        by (auto simp: acc Let_def split: if_splits)
    qed
  qed simp
  then show ?thesis
    by (simp add: heuristic_action_def case_prod_beta)
qed

lemma random_action_unchanged:
  assumes live: "before < stack_top s"
  shows "unchanged_below s (snd (snd (random_action B S p before s)))"
proof -
  obtain ops e where sh: "shuffle S (opcode p) (engine p) = (ops, e)"
    by (cases "shuffle S (opcode p) (engine p)")
  from random_loop_eq [OF live unchanged_below_refl, of B ops]
  have "unchanged_below s (snd (random_loop B ops before s))"
    by auto
  then show ?thesis
    by (simp add: random_action_def sh case_prod_beta)
qed

text \<open>
  C7: for every board object that is live when the player's \<open>take_action\<close> is called,
  in each of the three modes, the call leaves it as it was: every trial slide and every
  search runs on a copy above the stack top, and no board below the stack top of the
  call, the caller's board among them, differs after the call.
\<close>

theorem take_action_leaves_board:
  assumes live: "before < stack_top s"
  shows "unchanged_below s (snd (snd (take_action B S p before s)))
         \<and> boards (snd (snd (take_action B S p before s))) before = boards s before"
proof -
  have "unchanged_below s (snd (snd (take_action B S p before s)))"
    using greedy_action_unchanged [OF live, of B p] heuristic_action_unchanged [OF live, of B p]
      random_action_unchanged [OF live, of B S p]
    by (simp add: take_action_def case_prod_beta)
  with live show ?thesis
    by (simp add: unchanged_below_def)
qed

theorem take_action_leaves_board_witness:
  "boards (snd (snd (take_action ex_B ex_S (ex_player ''heuristic'') 0
                       (single_board board_pair)))) 0 = board_pair"
proof -
  have live: "0 < stack_top (single_board board_pair)"
    by (simp add: single_board_def)
  from take_action_leaves_board [OF live, of ex_B ex_S "ex_player ''heuristic''"]
  show ?thesis by (simp add: single_board_def)
qed

section \<open>The value of the search\<close>

lemma fold_related:
  assumes "R a a'"
    and "\<And>x a a'. x \<in> set xs \<Longrightarrow> R a a' \<Longrightarrow> R (f x a) (f' x a')"
  shows "R (fold f xs a) (fold f' xs a')"
  using assms by (induction xs arbitrary: a a') simp_all

lemma tree_search_same_board:
  "game < stack_top s \<Longrightarrow> game' < stack_top s' \<Longrightarrow> boards s game = boards s' game' \<Longrightarrow>
   fst (tree_search B p game d s) = fst (tree_search B p game' d s')"
proof (induction B p game d s arbitrary: game' s' rule: tree_search.induct)
  case (1 B p game d s)
  show ?case
  proof (cases "d \<le> 0")
    case True
    then show ?thesis
      using "1.prems"(3)
      by (subst (1 2) tree_search.simps) (simp add: evaluate_board_eq)
  next
    case False
    let ?round = "\<lambda>game op (best_score, s).
             let (after, s1) = board_copy game s;
                 (reward, s2) = slide_at B op after s1;
                 (score, s3) =
                   (if reward \<noteq> -1
                    then (let (v, s') = tree_search B p after (d - 1) s2
                          in (reward + v, s'))
                    else (0, s2))
             in (max best_score (score + reward), board_destroy s3)"
    let ?R = "\<lambda>acc acc'. fst acc = fst acc' \<and> unchanged_below s (snd acc)
                \<and> unchanged_below s' (snd acc')"
    have unfold: "tree_search B p g d t = fold (?round g) (opcode p) (0, t)" for g t
      using False by (subst tree_search.simps) (simp only: if_False)
    have round: "?R (?round game op acc) (?round game' op acc')"
      if op: "op \<in> set (opcode p)" and rel: "?R acc acc'" for op acc acc'
    proof -
      obtain best xb where acc: "acc = (best, xb)" by (cases acc)
      obtain best' xb' where acc': "acc' = (best', xb')" by (cases acc')
      from rel acc acc' have best: "best' = best"
        and xb: "unchanged_below s xb" and xb': "unchanged_below s' xb'"
        by simp_all
      obtain after s1 where copy: "board_copy game xb = (after, s1)"
        by (cases "board_copy game xb")
      obtain reward s2 where slide: "slide_at B op after s1 = (reward, s2)"
        by (cases "slide_at B op after s1")
      obtain after' s1' where copy': "board_copy game' xb' = (after', s1')"
        by (cases "board_copy game' xb'")
      obtain reward' s2' where slide': "slide_at B op after' s1' = (reward', s2')"
        by (cases "slide_at B op after' s1'")
      from xb "1.prems"(1) have live: "game < stack_top xb"
        and same: "boards xb game = boards s game"
        by (simp_all add: unchanged_below_def)
      from xb' "1.prems"(2) have live': "game' < stack_top xb'"
        and same': "boards xb' game' = boards s' game'"
        by (simp_all add: unchanged_below_def)
      note t = trial_slide [OF copy slide live]
      note t' = trial_slide [OF copy' slide' live']
      from t(2) t'(2) same same' "1.prems"(3) have reward: "reward' = reward"
        by simp
      from t(3) t'(3) same same' "1.prems"(3) have slid: "boards s2 after = boards s2' after'"
        by simp
      show ?thesis
      proof (cases "reward = -1")
        case True
        have "?round game op acc = (max best (0 + reward), board_destroy s2)"
          using True by (simp add: acc copy slide)
        moreover have "?round game' op acc' = (max best (0 + reward), board_destroy s2')"
          using True by (simp add: acc' best copy' slide' reward)
        moreover have "unchanged_below s (board_destroy s2)"
          using xb t(6) by (rule unchanged_below_trans)
        moreover have "unchanged_below s' (board_destroy s2')"
          using xb' t'(6) by (rule unchanged_below_trans)
        ultimately show ?thesis by simp
      next
        case legal: False
        obtain v s3 where search: "tree_search B p after (d - 1) s2 = (v, s3)"
          by (cases "tree_search B p after (d - 1) s2")
        obtain v' s3' where search': "tree_search B p after' (d - 1) s2' = (v', s3')"
          by (cases "tree_search B p after' (d - 1) s2'")
        have a: "after < stack_top s2" using t(1,4) by simp
        have a': "after' < stack_top s2'" using t'(1,4) by simp
        from "1.IH" [OF False op refl copy [symmetric] refl slide [symmetric] legal a a' slid]
        have v: "v' = v" by (simp add: search search')
        from tree_search_unchanged [OF a, of B p "d - 1"] search
        have "unchanged_below s2 s3" by simp
        with t(4) t(5) have "unchanged_below xb (board_destroy s3)"
          by (rule destroy_after_call)
        with xb have f: "unchanged_below s (board_destroy s3)"
          by (rule unchanged_below_trans)
        from tree_search_unchanged [OF a', of B p "d - 1"] search'
        have "unchanged_below s2' s3'" by simp
        with t'(4) t'(5) have "unchanged_below xb' (board_destroy s3')"
          by (rule destroy_after_call)
        with xb' have f': "unchanged_below s' (board_destroy s3')"
          by (rule unchanged_below_trans)
        have "?round game op acc = (max best (reward + v + reward), board_destroy s3)"
          using legal by (simp add: acc copy slide search)
        moreover have "?round game' op acc' = (max best (reward + v + reward), board_destroy s3')"
          using legal by (simp add: acc' best copy' slide' reward search' v)
        ultimately show ?thesis using f f' by simp
      qed
    qed
    have "?R (fold (?round game) (opcode p) (0, s)) (fold (?round game') (opcode p) (0, s'))"
      by (rule fold_related [where R = ?R, OF _ round]) (simp_all add: unchanged_below_refl)
    then show ?thesis by (simp only: unfold)
  qed
qed

lemma tree_search_value:
  "game < stack_top s \<Longrightarrow> fst (tree_search B p game d s) = search_value B p (boards s game) d"
  unfolding search_value_def
  by (rule tree_search_same_board) (simp_all add: single_board_def)

lemma search_value_0: "search_value B p b 0 = evaluate B p b"
  by (simp add: search_value_def evaluate_def tree_search.simps)


text \<open>
  What a search of positive depth computes: each legal direction enters the maximum
  with its reward counted twice, once in \<open>score\<close> and once more in \<open>score + reward\<close>; an
  illegal direction enters with \<open>0 + (-1)\<close>, which the initial \<open>best_score = 0\<close> hides.
\<close>

lemma tree_search_counts_reward_twice:
  assumes live: "game < stack_top s" and deep: "0 < d"
  shows "fst (tree_search B p game d s) =
           fold (\<lambda>op best. max best
                   (if legal B (boards s game) op
                    then 2 * immediate_reward B (boards s game) op
                         + search_value B p (slid B (boards s game) op) (d - 1)
                    else -1))
             (opcode p) 0"
proof -
  let ?b = "boards s game"
  let ?round = "\<lambda>op (best_score, s).
             let (after, s1) = board_copy game s;
                 (reward, s2) = slide_at B op after s1;
                 (score, s3) =
                   (if reward \<noteq> -1
                    then (let (v, s') = tree_search B p after (d - 1) s2
                          in (reward + v, s'))
                    else (0, s2))
             in (max best_score (score + reward), board_destroy s3)"
  let ?pure = "\<lambda>op best. max best
                   (if legal B ?b op
                    then 2 * immediate_reward B ?b op + search_value B p (slid B ?b op) (d - 1)
                    else -1)"
  let ?R = "\<lambda>acc best. fst acc = best \<and> unchanged_below s (snd acc)"
  have unfold: "tree_search B p game d s = fold ?round (opcode p) (0, s)"
    using deep by (subst tree_search.simps) simp
  have round: "?R (?round op acc) (?pure op best)" if rel: "?R acc best" for op acc best
  proof -
    obtain best0 xb where acc: "acc = (best0, xb)" by (cases acc)
    from rel acc have best: "best0 = best" and xb: "unchanged_below s xb"
      by simp_all
    obtain after s1 where copy: "board_copy game xb = (after, s1)"
      by (cases "board_copy game xb")
    obtain reward s2 where slide: "slide_at B op after s1 = (reward, s2)"
      by (cases "slide_at B op after s1")
    from xb live have live': "game < stack_top xb" and same: "boards xb game = ?b"
      by (simp_all add: unchanged_below_def)
    note t = trial_slide [OF copy slide live']
    from t(2) same have reward: "reward = immediate_reward B ?b op" by simp
    show ?thesis
    proof (cases "reward = -1")
      case True
      then have "\<not> legal B ?b op" by (simp add: legal_def reward)
      moreover have "?round op acc = (max best (0 + reward), board_destroy s2)"
        using True by (simp add: acc best copy slide)
      moreover have "unchanged_below s (board_destroy s2)"
        using xb t(6) by (rule unchanged_below_trans)
      ultimately show ?thesis using True by simp
    next
      case False
      then have legal: "legal B ?b op" by (simp add: legal_def reward)
      obtain v s3 where search: "tree_search B p after (d - 1) s2 = (v, s3)"
        by (cases "tree_search B p after (d - 1) s2")
      have a: "after < stack_top s2" using t(1,4) by simp
      from tree_search_value [OF a, of B p "d - 1"] search t(3) same
      have v: "v = search_value B p (slid B ?b op) (d - 1)" by simp
      from tree_search_unchanged [OF a, of B p "d - 1"] search
      have "unchanged_below s2 s3" by simp
      with t(4) t(5) have "unchanged_below xb (board_destroy s3)"
        by (rule destroy_after_call)
      with xb have "unchanged_below s (board_destroy s3)"
        by (rule unchanged_below_trans)
      moreover have "?round op acc = (max best (reward + v + reward), board_destroy s3)"
        using False by (simp add: acc best copy slide search)
      ultimately show ?thesis using legal reward v by simp
    qed
  qed
  have "?R (fold ?round (opcode p) (0, s)) (fold ?pure (opcode p) 0)"
    by (rule fold_related [where R = ?R, OF _ round]) (simp_all add: unchanged_below_refl)
  then show ?thesis by (simp only: unfold)
qed

lemma search_value_rounds:
  assumes "0 < d"
  shows "search_value B p b d =
           fold (\<lambda>op best. max best
                   (if legal B b op
                    then 2 * immediate_reward B b op + search_value B p (slid B b op) (d - 1)
                    else -1))
             (opcode p) 0"
proof -
  have live: "0 < stack_top (single_board b)" and b: "boards (single_board b) 0 = b"
    by (simp_all add: single_board_def)
  have "search_value B p b d = fst (tree_search B p 0 d (single_board b))"
    by (simp add: search_value_def)
  also note tree_search_counts_reward_twice [OF live assms, of B p]
  finally show ?thesis by (simp only: b)
qed

text \<open>Without a legal direction a search of positive depth returns 0.\<close>

lemma search_value_no_legal_move:
  assumes "0 < d" and "\<forall>op\<in>set (opcode p). \<not> legal B b op"
  shows "search_value B p b d = 0"
proof -
  have "fold (\<lambda>op best. max best
                   (if legal B b op
                    then 2 * immediate_reward B b op + search_value B p (slid B b op) (d - 1)
                    else -1)) ops 0 = 0"
    if "\<forall>op\<in>set ops. \<not> legal B b op" for ops
    using that by (induction ops) simp_all
  with assms show ?thesis
    by (simp add: search_value_rounds)
qed

lemma board_pair_slid_values:
  "evaluate ex_B (ex_player []) (slid ex_B board_pair 1) = 75"
  "evaluate ex_B (ex_player []) (slid ex_B board_pair 2) = 70"
  "evaluate ex_B (ex_player []) (slid ex_B board_pair 3) = 75"
  by code_simp+

text \<open>
  C1, on the board with the tiles 1, 1 at the left of the top row and the depth 1:
  sliding left or right merges the pair for the reward 2 and leaves a board that
  evaluates to 75, so the search as specified is \<open>2 + 75 = 77\<close>; \<open>tree_search\<close> returns
  \<open>2 + 75 + 2 = 79\<close>.
\<close>

theorem tree_search_board_pair:
  "search_value ex_B (ex_player []) board_pair 1 = 79
   \<and> tree_search_spec ex_B (ex_player []) board_pair 1 = 77"
proof
  have ops: "opcode (ex_player []) = [0, 1, 2, 3]" by (simp add: ex_player_def)
  have r1: "immediate_reward ex_B board_pair (Suc 0) = 2"
    using board_pair_rewards(2) by simp
  have v1: "evaluate ex_B (ex_player []) (slid ex_B board_pair (Suc 0)) = 75"
    using board_pair_slid_values(1) by simp
  show "search_value ex_B (ex_player []) board_pair 1 = 79"
    by (simp add: search_value_rounds ops legal_def board_pair_rewards r1 search_value_0
          board_pair_slid_values v1)
  show "tree_search_spec ex_B (ex_player []) board_pair 1 = 77"
    by (simp add: tree_search_spec_def branch_score_def legal_def board_pair_rewards r1
          search_value_0 board_pair_slid_values v1)
qed

end
